theory Spec2Isabelle
  imports Main "HOL-Library.AList"
begin

section \<open>Data model of the ECS registry (architecture.py)\<close>

text \<open>
  Python containers are embedded as lists, so that every loop of the source that iterates
  over a container is a recursion over a list:
  \<^item> a \<open>set\<close> is a list of its elements, the list order standing for the (unspecified)
    iteration order; \<open>add\<close> appends an absent element, \<open>remove\<close> deletes the element;
  \<^item> a \<open>dict\<close> is an association list in insertion order, read with \<open>map_of\<close>, written
    with \<open>AList.update\<close> (keeps the position of an existing key, appends a new one) and
    \<open>AList.delete\<close>;
  \<^item> a \<open>defaultdict\<close> is a dict whose subscript inserts the default under a missing key
    before returning it.
  Entity ids are Python integers (\<open>int\<close>). A component key is the pair of a name and the
  name of a type object; a tag is a string or a (string, integer) pair.
\<close>

datatype error = NameError | KeyError | TypeError | AttributeError

datatype tag_t = Tag string | TagN string int

type_synonym comp = "string \<times> string"

record 'v World =
  entities :: "int list"
  components :: "(comp \<times> (int \<times> 'v) list) list"
  tags :: "(tag_t \<times> int list) list"
  relations :: "(string \<times> (int \<times> int list) list) list"
  eid_comps :: "(int \<times> comp list) list"
  eid_tags :: "(int \<times> tag_t list) list"
  eid_rels :: "(int \<times> (string \<times> int) list) list"
  next_id :: int

text \<open>
  Registries are objects that handles and the module refer to: the store maps a reference
  to the registry it holds. An entity handle is an id and the reference of its registry.
\<close>

type_synonym 'v store = "nat \<Rightarrow> 'v World"

record Entity =
  eid :: int
  world :: nat

text \<open>\<open>World.__init__\<close>: all tables empty, the counter at 0.\<close>

definition World_init :: "'v World" where
  "World_init = \<lparr>entities = [], components = [], tags = [], relations = [],
                 eid_comps = [], eid_tags = [], eid_rels = [], next_id = 0\<rparr>"

subsection \<open>Container primitives\<close>

text \<open>\<open>s.add(x)\<close> on a set.\<close>

definition add :: "'a \<Rightarrow> 'a list \<Rightarrow> 'a list" where
  "add x s = (if x \<in> set s then s else s @ [x])"

text \<open>\<open>d[k]\<close> on a \<open>defaultdict\<close> with default \<open>dflt\<close>: the value and the dict afterwards.\<close>

definition dd_get :: "'k \<Rightarrow> 'b \<Rightarrow> ('k \<times> 'b) list \<Rightarrow> 'b \<times> ('k \<times> 'b) list" where
  "dd_get k dflt d = (case map_of d k of Some v \<Rightarrow> (v, d) | None \<Rightarrow> (dflt, d @ [(k, dflt)]))"

text \<open>A \<open>for\<close> loop whose body may raise: the first error ends the loop, keeping the state
  reached.\<close>

fun for_each :: "('a \<Rightarrow> 's \<Rightarrow> (error + unit) \<times> 's) \<Rightarrow> 'a list \<Rightarrow> 's \<Rightarrow> (error + unit) \<times> 's" where
  "for_each f [] s = (Inr (), s)"
| "for_each f (x # xs) s =
     (case f x s of (Inl e, s') \<Rightarrow> (Inl e, s') | (Inr _, s') \<Rightarrow> for_each f xs s')"

text \<open>A list comprehension whose element expression changes the state (a \<open>defaultdict\<close>
  subscript).\<close>

fun comprehension :: "('a \<Rightarrow> 's \<Rightarrow> 'b \<times> 's) \<Rightarrow> 'a list \<Rightarrow> 's \<Rightarrow> 'b list \<times> 's" where
  "comprehension f [] s = ([], s)"
| "comprehension f (x # xs) s =
     (case f x s of (y, s') \<Rightarrow> (case comprehension f xs s' of (ys, s'') \<Rightarrow> (y # ys, s'')))"

text \<open>\<open>set.intersection(*sets)\<close>: a \<open>TypeError\<close> without an argument, otherwise the elements
  of the first set that are in all the others.\<close>

fun intersection :: "'a list list \<Rightarrow> error + 'a list" where
  "intersection [] = Inl TypeError"
| "intersection (s # ss) = Inr (filter (\<lambda>x. list_all (\<lambda>t. x \<in> set t) ss) s)"

subsection \<open>Views of the tables\<close>

text \<open>The source set of \<open>relations[r][t]\<close>, empty when the bucket does not exist, and the
  current target of an entity for a relation name.\<close>

definition sources :: "'v World \<Rightarrow> string \<Rightarrow> int \<Rightarrow> int list" where
  "sources w r t = (case map_of (relations w) r of None \<Rightarrow> []
     | Some m \<Rightarrow> (case map_of m t of None \<Rightarrow> [] | Some b \<Rightarrow> b))"

definition current_target :: "'v World \<Rightarrow> int \<Rightarrow> string \<Rightarrow> int option" where
  "current_target w e r = (case map_of (eid_rels w) e of None \<Rightarrow> None | Some rs \<Rightarrow> map_of rs r)"

text \<open>The entity ids under a component key and under a tag, empty when the key is absent.\<close>

definition comp_holders :: "'v World \<Rightarrow> comp \<Rightarrow> int list" where
  "comp_holders w c = (case map_of (components w) c of None \<Rightarrow> [] | Some d \<Rightarrow> map fst d)"

definition tag_holders :: "'v World \<Rightarrow> tag_t \<Rightarrow> int list" where
  "tag_holders w t = (case map_of (tags w) t of None \<Rightarrow> [] | Some b \<Rightarrow> b)"

section \<open>Entity\<close>

text \<open>\<open>Entity.__init__\<close> (lines 7-11).\<close>

definition Entity_init :: "'v store \<Rightarrow> int \<Rightarrow> nat \<Rightarrow> error + Entity" where
  "Entity_init st e wref =
     (if e \<notin> set (entities (st wref)) then Inl NameError
      else Inr \<lparr>eid = e, world = wref\<rparr>)"

text \<open>\<open>Entity.__getattr__\<close> (lines 13-21) for the three attribute names the class uses; the
  subscript \<open>self.world.eid_...[self.eid]\<close> raises \<open>KeyError\<close> when the id has no record.\<close>

definition getattr_components :: "'v store \<Rightarrow> Entity \<Rightarrow> error + comp list" where
  "getattr_components st self =
     (case map_of (eid_comps (st (world self))) (eid self) of None \<Rightarrow> Inl KeyError | Some cs \<Rightarrow> Inr cs)"

definition getattr_tags :: "'v store \<Rightarrow> Entity \<Rightarrow> error + tag_t list" where
  "getattr_tags st self =
     (case map_of (eid_tags (st (world self))) (eid self) of None \<Rightarrow> Inl KeyError | Some ts \<Rightarrow> Inr ts)"

definition getattr_relations :: "'v store \<Rightarrow> Entity \<Rightarrow> error + (string \<times> int) list" where
  "getattr_relations st self =
     (case map_of (eid_rels (st (world self))) (eid self) of None \<Rightarrow> Inl KeyError | Some rs \<Rightarrow> Inr rs)"

text \<open>\<open>Entity.__setitem__\<close> (lines 26-28).\<close>

definition setitem :: "'v store \<Rightarrow> Entity \<Rightarrow> comp \<Rightarrow> 'v \<Rightarrow> (error + unit) \<times> 'v store" where
  "setitem st self component v =
     (let w = st (world self) in
      case map_of (eid_comps w) (eid self) of
        None \<Rightarrow> (Inl KeyError, st)
      | Some cs \<Rightarrow>
          (let w1 = w\<lparr>eid_comps := AList.update (eid self) (add component cs) (eid_comps w)\<rparr>;
               (d, comps1) = dd_get component [] (components w1);
               w2 = w1\<lparr>components := AList.update component (AList.update (eid self) v d) comps1\<rparr>
           in (Inr (), st(world self := w2))))"

text \<open>\<open>Entity.__delitem__\<close> (lines 30-32).\<close>

definition delitem :: "'v store \<Rightarrow> Entity \<Rightarrow> comp \<Rightarrow> (error + unit) \<times> 'v store" where
  "delitem st self component =
     (let w = st (world self);
          (d, comps1) = dd_get component [] (components w);
          w1 = w\<lparr>components := comps1\<rparr>
      in if map_of d (eid self) = None then (Inl KeyError, st(world self := w1))
         else
           (let w2 = w1\<lparr>components := AList.update component (AList.delete (eid self) d) comps1\<rparr>
            in case map_of (eid_comps w2) (eid self) of
                 None \<Rightarrow> (Inl KeyError, st(world self := w2))
               | Some cs \<Rightarrow>
                   if component \<notin> set cs then (Inl KeyError, st(world self := w2))
                   else (Inr (), st(world self := w2\<lparr>eid_comps :=
                           AList.update (eid self) (removeAll component cs) (eid_comps w2)\<rparr>))))"

text \<open>\<open>Entity.tag\<close> (lines 42-46).\<close>

definition tag :: "'v store \<Rightarrow> Entity \<Rightarrow> tag_t \<Rightarrow> (error + unit) \<times> 'v store" where
  "tag st self t =
     (let w = st (world self) in
      case map_of (eid_tags w) (eid self) of
        None \<Rightarrow> (Inl KeyError, st)
      | Some ts \<Rightarrow>
          if t \<notin> set ts then
            (let w1 = w\<lparr>eid_tags := AList.update (eid self) (add t ts) (eid_tags w)\<rparr>;
                 (b, tags1) = dd_get t [] (tags w1);
                 w2 = w1\<lparr>tags := AList.update t (add (eid self) b) tags1\<rparr>
             in (Inr (), st(world self := w2)))
          else (Inr (), st))"

text \<open>\<open>Entity.untag\<close> (lines 48-55).\<close>

definition untag :: "'v store \<Rightarrow> Entity \<Rightarrow> tag_t \<Rightarrow> (error + unit) \<times> 'v store" where
  "untag st self t =
     (let w = st (world self) in
      case map_of (eid_tags w) (eid self) of
        None \<Rightarrow> (Inl KeyError, st)
      | Some ts \<Rightarrow>
          if t \<in> set ts then
            (let w1 = w\<lparr>eid_tags := AList.update (eid self) (removeAll t ts) (eid_tags w)\<rparr>;
                 (tag_eids, tags1) = dd_get t [] (tags w1);
                 w2 = w1\<lparr>tags := tags1\<rparr>
             in if eid self \<notin> set tag_eids then (Inl KeyError, st(world self := w2))
                else
                  (let tag_eids' = removeAll (eid self) tag_eids;
                       w3 = w2\<lparr>tags := AList.update t tag_eids' tags1\<rparr>
                   in if tag_eids' = [] then
                        (Inr (), st(world self := w3\<lparr>tags := AList.delete t (tags w3)\<rparr>))
                      else (Inr (), st(world self := w3))))
          else (Inr (), st))"

text \<open>
  \<open>Entity.relate\<close> (lines 57-67). The name \<open>world\<close> in line 59 is not \<open>self.world\<close>: it is a
  free name of the method, looked up in the module when the line runs. \<open>glob\<close> is the
  binding of that module-level name: \<open>None\<close> when the name is unbound (reading it raises
  \<open>NameError\<close>), \<open>Some g\<close> when it is bound to the registry at reference \<open>g\<close>.
\<close>

definition relate :: "nat option \<Rightarrow> 'v store \<Rightarrow> Entity \<Rightarrow> string \<Rightarrow> int \<Rightarrow> (error + unit) \<times> 'v store" where
  "relate glob st self relation other_id =
     (case glob of
        None \<Rightarrow> (Inl NameError, st)
      | Some g \<Rightarrow>
          if other_id \<notin> set (entities (st g)) then (Inl NameError, st)
          else
            (let w = st (world self);
                 (rels, relations1) = dd_get relation [] (relations w);
                 w1 = w\<lparr>relations := relations1\<rparr>
             in case map_of (eid_rels w1) (eid self) of
                  None \<Rightarrow> (Inl KeyError, st(world self := w1))
                | Some mine \<Rightarrow>
                    (case (case map_of mine relation of
                             None \<Rightarrow> Inr rels
                           | Some old \<Rightarrow>
                               (case map_of rels old of
                                  None \<Rightarrow> Inl KeyError
                                | Some b \<Rightarrow> if eid self \<notin> set b then Inl KeyError
                                            else Inr (AList.update old (removeAll (eid self) b) rels)))
                     of Inl e \<Rightarrow> (Inl e, st(world self := w1))
                      | Inr rels2 \<Rightarrow>
                          (let mine' = AList.update relation other_id mine;
                               rels3 = (if map_of rels2 other_id = None
                                        then AList.update other_id [] rels2 else rels2);
                               rels4 = AList.update other_id
                                         (add (eid self) (the (map_of rels3 other_id))) rels3
                           in (Inr (), st(world self := w1\<lparr>
                                 eid_rels := AList.update (eid self) mine' (eid_rels w1),
                                 relations := AList.update relation rels4 relations1\<rparr>))))))"

text \<open>\<open>Entity.unrelate\<close> (lines 69-77); \<open>world\<close> in line 71 is the module-level name again.\<close>

definition unrelate :: "nat option \<Rightarrow> 'v store \<Rightarrow> Entity \<Rightarrow> string \<Rightarrow> int \<Rightarrow> (error + unit) \<times> 'v store" where
  "unrelate glob st self relation other_id =
     (case glob of
        None \<Rightarrow> (Inl NameError, st)
      | Some g \<Rightarrow>
          if other_id \<notin> set (entities (st g)) then (Inl NameError, st)
          else
            (let w = st (world self);
                 (rels, relations1) = dd_get relation [] (relations w);
                 w1 = w\<lparr>relations := relations1\<rparr>
             in case map_of rels other_id of
                  None \<Rightarrow> (Inl KeyError, st(world self := w1))
                | Some related \<Rightarrow>
                    (case map_of (eid_rels w1) (eid self) of
                       None \<Rightarrow> (Inl KeyError, st(world self := w1))
                     | Some mine \<Rightarrow>
                         if map_of mine relation = None then (Inl KeyError, st(world self := w1))
                         else
                           (let w2 = w1\<lparr>eid_rels :=
                                   AList.update (eid self) (AList.delete relation mine) (eid_rels w1)\<rparr>
                            in if eid self \<notin> set related then (Inl KeyError, st(world self := w2))
                               else
                                 (let related' = removeAll (eid self) related;
                                      rels' = AList.update other_id related' rels;
                                      rels'' = (if related' = [] then AList.delete other_id rels'
                                                else rels')
                                  in (Inr (), st(world self := w2\<lparr>relations :=
                                        AList.update relation rels'' relations1\<rparr>)))))))"

section \<open>World\<close>

text \<open>\<open>World.create_entity\<close> (lines 93-101); \<open>self\<close> is the reference of the registry.\<close>

definition create_entity :: "'v store \<Rightarrow> nat \<Rightarrow> (error + Entity) \<times> 'v store" where
  "create_entity st self =
     (let w = st self;
          e = next_id w;
          w' = w\<lparr>next_id := next_id w + 1,
                 entities := add e (entities w),
                 eid_comps := AList.update e [] (eid_comps w),
                 eid_tags := AList.update e [] (eid_tags w),
                 eid_rels := AList.update e [] (eid_rels w)\<rparr>;
          st' = st(self := w')
      in (Entity_init st' e self, st'))"

text \<open>
  \<open>World.delete_entity\<close> (lines 103-119). The handle of line 105 is bound to \<open>self\<close>; the
  handles of line 117 are bound to the module-level name \<open>world\<close> (\<open>glob\<close>), and line 118
  therefore works on that registry. Every \<open>for\<close> statement runs over a copy (\<open>list(...)\<close>) taken when
  it starts; the keys of \<open>self.relations\<close> do not change while line 115 iterates them.
\<close>

definition unrelate_own :: "nat option \<Rightarrow> Entity \<Rightarrow> string \<Rightarrow> 'v store \<Rightarrow> (error + unit) \<times> 'v store" where
  "unrelate_own glob entity rel st =
     (case getattr_relations st entity of
        Inl e \<Rightarrow> (Inl e, st)
      | Inr rs \<Rightarrow>
          (case map_of rs rel of
             None \<Rightarrow> (Inl KeyError, st)
           | Some target \<Rightarrow> unrelate glob st entity rel target))"

definition unrelate_child :: "nat option \<Rightarrow> string \<Rightarrow> int \<Rightarrow> int \<Rightarrow> 'v store \<Rightarrow> (error + unit) \<times> 'v store" where
  "unrelate_child glob relation e cid st =
     (case glob of
        None \<Rightarrow> (Inl NameError, st)
      | Some g \<Rightarrow>
          (case Entity_init st cid g of
             Inl err \<Rightarrow> (Inl err, st)
           | Inr child \<Rightarrow> unrelate glob st child relation e))"

definition detach_incoming :: "nat option \<Rightarrow> nat \<Rightarrow> int \<Rightarrow> string \<Rightarrow> 'v store \<Rightarrow> (error + unit) \<times> 'v store" where
  "detach_incoming glob self e relation st =
     for_each (unrelate_child glob relation e) (sources (st self) relation e) st"

text \<open>Statement sequencing: the next statement runs in the state the previous one left,
  unless that one raised.\<close>

definition and_then :: "(error + unit) \<times> 's \<Rightarrow> ('s \<Rightarrow> (error + unit) \<times> 's) \<Rightarrow> (error + unit) \<times> 's" where
  "and_then r f = (case r of (Inl err, s) \<Rightarrow> (Inl err, s) | (Inr _, s) \<Rightarrow> f s)"

text \<open>Lines 106-107.\<close>

definition delete_components :: "Entity \<Rightarrow> 'v store \<Rightarrow> (error + unit) \<times> 'v store" where
  "delete_components entity st =
     (case getattr_components st entity of
        Inl err \<Rightarrow> (Inl err, st)
      | Inr cs \<Rightarrow> for_each (\<lambda>comp s. delitem s entity comp) cs st)"

text \<open>Lines 108-109.\<close>

definition delete_tags :: "Entity \<Rightarrow> 'v store \<Rightarrow> (error + unit) \<times> 'v store" where
  "delete_tags entity st =
     (case getattr_tags st entity of
        Inl err \<Rightarrow> (Inl err, st)
      | Inr ts \<Rightarrow> for_each (\<lambda>t s. untag s entity t) ts st)"

text \<open>Lines 110-111.\<close>

definition delete_relations :: "nat option \<Rightarrow> Entity \<Rightarrow> 'v store \<Rightarrow> (error + unit) \<times> 'v store" where
  "delete_relations glob entity st =
     (case getattr_relations st entity of
        Inl err \<Rightarrow> (Inl err, st)
      | Inr rs \<Rightarrow> for_each (unrelate_own glob entity) (map fst rs) st)"

text \<open>Lines 112-114.\<close>

definition delete_records :: "nat \<Rightarrow> int \<Rightarrow> 'v store \<Rightarrow> (error + unit) \<times> 'v store" where
  "delete_records self e st =
     (let w = st self in
      if map_of (eid_comps w) e = None then (Inl KeyError, st)
      else
        (let w1 = w\<lparr>eid_comps := AList.delete e (eid_comps w)\<rparr> in
         if map_of (eid_tags w1) e = None then (Inl KeyError, st(self := w1))
         else
           (let w2 = w1\<lparr>eid_tags := AList.delete e (eid_tags w1)\<rparr> in
            if map_of (eid_rels w2) e = None then (Inl KeyError, st(self := w2))
            else (Inr (), st(self := w2\<lparr>eid_rels := AList.delete e (eid_rels w2)\<rparr>)))))"

text \<open>Lines 115-118.\<close>

definition delete_incoming :: "nat option \<Rightarrow> nat \<Rightarrow> int \<Rightarrow> 'v store \<Rightarrow> (error + unit) \<times> 'v store" where
  "delete_incoming glob self e st =
     for_each (detach_incoming glob self e) (map fst (relations (st self))) st"

text \<open>Line 119.\<close>

definition remove_entity :: "nat \<Rightarrow> int \<Rightarrow> 'v store \<Rightarrow> (error + unit) \<times> 'v store" where
  "remove_entity self e st =
     (let w = st self in
      if e \<notin> set (entities w) then (Inl KeyError, st)
      else (Inr (), st(self := w\<lparr>entities := removeAll e (entities w)\<rparr>)))"

definition delete_entity :: "nat option \<Rightarrow> 'v store \<Rightarrow> nat \<Rightarrow> int \<Rightarrow> (error + unit) \<times> 'v store" where
  "delete_entity glob st self e =
     (case Entity_init st e self of
        Inl err \<Rightarrow> (Inl err, st)
      | Inr entity \<Rightarrow>
          and_then (and_then (and_then (and_then (and_then
            (delete_components entity st)
            (delete_tags entity))
            (delete_relations glob entity))
            (delete_records self e))
            (delete_incoming glob self e))
            (remove_entity self e))"

text \<open>
  \<open>World.query\<close> (lines 121-145). The three comprehensions subscript the \<open>defaultdict\<close>
  tables (\<open>self.components[comp]\<close>, \<open>self.tags[tag]\<close>, \<open>self.relations[rel[0]]\<close>), which
  inserts an empty bucket under every key that is absent; the inner \<open>.get\<close> of line 130
  inserts nothing. \<open>list.sort(key=len)\<close> is a stable sort by size.
\<close>

definition query ::
  "'v store \<Rightarrow> nat \<Rightarrow> comp list \<Rightarrow> tag_t list \<Rightarrow> (string \<times> int) list \<Rightarrow> (error + int list) \<times> 'v store" where
  "query st self comps tgs rels =
     (let w = st self;
          (comp_sets, components1) =
             comprehension (\<lambda>comp d. case dd_get comp [] d of (b, d') \<Rightarrow> (map fst b, d'))
               comps (components w);
          (tag_sets, tags1) = comprehension (\<lambda>t d. dd_get t [] d) tgs (tags w);
          (rel_sets, relations1) =
             comprehension (\<lambda>rel d. case dd_get (fst rel) [] d of
                 (m, d') \<Rightarrow> ((case map_of m (snd rel) of None \<Rightarrow> [] | Some b \<Rightarrow> b), d'))
               rels (relations w);
          st' = st(self := w\<lparr>components := components1, tags := tags1, relations := relations1\<rparr>);
          comp_sets = sort_key length comp_sets;
          tag_sets = sort_key length tag_sets;
          rel_sets = sort_key length rel_sets
      in case (if comp_sets \<noteq> [] then intersection comp_sets else Inr []) of
           Inl err \<Rightarrow> (Inl err, st')
         | Inr comp_set' \<Rightarrow>
      (case (if tag_sets \<noteq> [] then intersection tag_sets else Inr []) of
           Inl err \<Rightarrow> (Inl err, st')
         | Inr tag_set' \<Rightarrow>
      (case (if rel_sets \<noteq> [] then intersection rel_sets else Inr []) of
           Inl err \<Rightarrow> (Inl err, st')
         | Inr rel_set' \<Rightarrow>
      (let queried_sets = [];
           queried_sets = (if comps \<noteq> [] then queried_sets @ [comp_set'] else queried_sets);
           queried_sets = (if tgs \<noteq> [] then queried_sets @ [tag_set'] else queried_sets);
           queried_sets = (if rels \<noteq> [] then queried_sets @ [rel_set'] else queried_sets)
       in (intersection queried_sets, st')))))"

section \<open>Sequences of public operations\<close>

text \<open>The operations a caller can run on the registry at reference \<open>self\<close>, through the
  registry or through a handle for an id (a handle outlives the entity it was made for).\<close>

datatype 'v op = Create | Delete int | SetItem int comp 'v | DelItem int comp
  | AddTag int tag_t | Untag int tag_t | Relate int string int | Unrelate int string int
  | Query "comp list" "tag_t list" "(string \<times> int) list"

fun step :: "nat option \<Rightarrow> nat \<Rightarrow> 'v op \<Rightarrow> 'v store \<Rightarrow> 'v store" where
  "step glob self Create st = snd (create_entity st self)"
| "step glob self (Delete e) st = snd (delete_entity glob st self e)"
| "step glob self (SetItem e c v) st = snd (setitem st \<lparr>eid = e, world = self\<rparr> c v)"
| "step glob self (DelItem e c) st = snd (delitem st \<lparr>eid = e, world = self\<rparr> c)"
| "step glob self (AddTag e t) st = snd (tag st \<lparr>eid = e, world = self\<rparr> t)"
| "step glob self (Untag e t) st = snd (untag st \<lparr>eid = e, world = self\<rparr> t)"
| "step glob self (Relate e r t) st = snd (relate glob st \<lparr>eid = e, world = self\<rparr> r t)"
| "step glob self (Unrelate e r t) st = snd (unrelate glob st \<lparr>eid = e, world = self\<rparr> r t)"
| "step glob self (Query cs ts rs) st = snd (query st self cs ts rs)"

text \<open>What the calls of \<open>create_entity\<close> in a sequence return, in order.\<close>

fun created :: "nat option \<Rightarrow> nat \<Rightarrow> 'v op list \<Rightarrow> 'v store \<Rightarrow> (error + Entity) list" where
  "created glob self [] st = []"
| "created glob self (x # xs) st =
     (case x of Create \<Rightarrow> [fst (create_entity st self)] | _ \<Rightarrow> [])
     @ created glob self xs (step glob self x st)"

fun is_create :: "'v op \<Rightarrow> bool" where
  "is_create Create = True"
| "is_create _ = False"

section \<open>Example registries\<close>

text \<open>Every registry reference holds a fresh registry.\<close>

definition fresh :: "unit store" where
  "fresh = (\<lambda>_. World_init)"

text \<open>A handle of the registry at reference 0.\<close>

definition E :: "int \<Rightarrow> Entity" where
  "E i = \<lparr>eid = i, world = 0\<rparr>"

text \<open>Four calls of \<open>create_entity\<close> on registry 0: entities 0, 1, 2, 3.\<close>

definition four_entities :: "unit store" where
  "four_entities =
     snd (create_entity (snd (create_entity (snd (create_entity (snd (create_entity fresh 0)) 0)) 0)) 0)"

text \<open>The query example of the specification: 1 and 2 hold the component \<open>("hp", int)\<close>,
  2 and 3 hold the tag \<open>"enemy"\<close>.\<close>

definition hp_enemy :: "unit store" where
  "hp_enemy =
     snd (tag (snd (tag (snd (setitem (snd (setitem four_entities
       (E 1) (''hp'', ''int'') ()))
       (E 2) (''hp'', ''int'') ()))
       (E 2) (Tag ''enemy'')))
       (E 3) (Tag ''enemy''))"

text \<open>Two registries: entity 0 in registry 0, entities 0 and 1 in registry 1.\<close>

definition two_registries :: "unit store" where
  "two_registries = snd (create_entity (snd (create_entity (snd (create_entity fresh 0)) 1)) 1)"

text \<open>Registry 0 with the edges 0 --r--> 1 and 1 --r--> 2, the module-level name \<open>world\<close>
  bound to it.\<close>

definition two_edges :: "unit store" where
  "two_edges = snd (relate (Some 0) (snd (relate (Some 0) four_entities (E 0) ''r'' 1)) (E 1) ''r'' 2)"

section \<open>Consistency of the tables\<close>

text \<open>Invariant 3 of the specification, over the two views of the relation tables, with
  the liveness of sources and targets: the current target of \<open>c\<close> for \<open>r\<close> is \<open>t\<close> exactly
  when \<open>c\<close> is in the source set of \<open>relations[r][t]\<close>.\<close>

definition rel_inv :: "'v World \<Rightarrow> bool" where
  "rel_inv w \<longleftrightarrow>
     (\<forall>c r t. current_target w c r = Some t \<longrightarrow> t \<in> set (entities w) \<and> c \<in> set (sources w r t)) \<and>
     (\<forall>r t c. c \<in> set (sources w r t) \<longrightarrow> c \<in> set (entities w) \<and> current_target w c r = Some t) \<and>
     (\<forall>r t. distinct (sources w r t))"

text \<open>The effect of a successful \<open>unrelate\<close> of entity \<open>e\<close> from target \<open>t\<close> under \<open>r\<close>.\<close>

definition unrelated :: "'v World \<Rightarrow> int \<Rightarrow> string \<Rightarrow> int \<Rightarrow> 'v World \<Rightarrow> bool" where
  "unrelated w e r t w' \<longleftrightarrow>
     entities w' = entities w \<and> components w' = components w \<and> tags w' = tags w \<and>
     eid_comps w' = eid_comps w \<and> eid_tags w' = eid_tags w \<and> next_id w' = next_id w \<and>
     (\<forall>e' r'. current_target w' e' r' = (if e' = e \<and> r' = r then None else current_target w e' r')) \<and>
     (\<forall>r' t'. sources w' r' t' =
        (if r' = r \<and> t' = t then removeAll e (sources w r t) else sources w r' t')) \<and>
     (\<forall>e'. (map_of (eid_rels w') e' = None) = (map_of (eid_rels w) e' = None))"

text \<open>\<open>m.get(t, set())\<close> on the inner dict of a relation name.\<close>

definition bucket :: "(int \<times> int list) list \<Rightarrow> int \<Rightarrow> int list" where
  "bucket m t = (case map_of m t of None \<Rightarrow> [] | Some b \<Rightarrow> b)"

text \<open>The source set of \<open>relations[r][x]\<close> once line 63 has removed \<open>e\<close> from the bucket of its
  current target.\<close>

definition detached :: "'v World \<Rightarrow> int \<Rightarrow> string \<Rightarrow> int \<Rightarrow> int list" where
  "detached w e r x =
     (if current_target w e r = Some x then removeAll e (sources w r x) else sources w r x)"

text \<open>The effect of a successful \<open>relate\<close> of entity \<open>e\<close> to target \<open>t\<close> under \<open>r\<close>.\<close>

definition related :: "'v World \<Rightarrow> int \<Rightarrow> string \<Rightarrow> int \<Rightarrow> 'v World \<Rightarrow> bool" where
  "related w e r t w' \<longleftrightarrow>
     entities w' = entities w \<and> components w' = components w \<and> tags w' = tags w \<and>
     eid_comps w' = eid_comps w \<and> eid_tags w' = eid_tags w \<and> next_id w' = next_id w \<and>
     (\<forall>e' r'. current_target w' e' r' = (if e' = e \<and> r' = r then Some t else current_target w e' r')) \<and>
     (\<forall>r' t'. sources w' r' t' =
        (if r' \<noteq> r then sources w r' t'
         else if t' = t then add e (detached w e r t) else detached w e r t')) \<and>
     (\<forall>e'. (map_of (eid_rels w') e' = None) = (map_of (eid_rels w) e' = None))"

text \<open>
  A registry is consistent when every live entity has its three records, every component
  key and tag an entity holds lists the entity in the table (invariants 1 and 2 of the
  specification), every current target is live and lists the entity as a source, and
  every source is live and has the bucket's target as its current target (invariant 3).
  Sets hold no element twice and the relation dict of an entity no key twice.
\<close>

definition consistent :: "'v World \<Rightarrow> bool" where
  "consistent w \<longleftrightarrow>
     list_all (\<lambda>e. map_of (eid_comps w) e \<noteq> None \<and> map_of (eid_tags w) e \<noteq> None \<and>
                   map_of (eid_rels w) e \<noteq> None) (entities w) \<and>
     list_all (\<lambda>(e, cs). distinct cs \<and> list_all (\<lambda>c. e \<in> set (comp_holders w c)) cs) (eid_comps w) \<and>
     list_all (\<lambda>(e, ts). distinct ts \<and> list_all (\<lambda>t. e \<in> set (tag_holders w t)) ts) (eid_tags w) \<and>
     list_all (\<lambda>(e, rs). distinct (map fst rs) \<and>
                 list_all (\<lambda>(r, t). t \<in> set (entities w) \<and> e \<in> set (sources w r t)) rs) (eid_rels w) \<and>
     list_all (\<lambda>(r, m). list_all (\<lambda>(t, b). distinct b \<and>
                 list_all (\<lambda>c. c \<in> set (entities w) \<and> current_target w c r = Some t) b) m) (relations w)"

text \<open>Between two states of a registry only edges have been removed: the other tables, the
  live set and the ids that have a relation record are the same, and every current target
  is the former one or gone.\<close>

definition detaches :: "'v World \<Rightarrow> 'v World \<Rightarrow> bool" where
  "detaches w w' \<longleftrightarrow>
     entities w' = entities w \<and> components w' = components w \<and> tags w' = tags w \<and>
     eid_comps w' = eid_comps w \<and> eid_tags w' = eid_tags w \<and> next_id w' = next_id w \<and>
     (\<forall>c. (map_of (eid_rels w') c = None) = (map_of (eid_rels w) c = None)) \<and>
     (\<forall>c r. current_target w' c r = None \<or> current_target w' c r = current_target w c r)"

text \<open>The query example with the edge 1 --likes--> 2 added.\<close>

definition likes_edge :: "unit store" where
  "likes_edge = snd (relate (Some 0) hp_enemy (E 1) ''likes'' 2)"

text \<open>The same registry 0 beside a registry 1 that holds entities 0 to 3 and no edge.\<close>

definition likes_beside :: "unit store" where
  "likes_beside = likes_edge(1 := four_entities 0)"

section \<open>Evaluation and container lemmas\<close>

lemmas ops_defs = relate_def unrelate_def tag_def untag_def setitem_def delitem_def
  create_entity_def Entity_init_def dd_get_def add_def World_init_def getattr_components_def
  getattr_tags_def getattr_relations_def query_def sources_def current_target_def
  comp_holders_def tag_holders_def delete_entity_def and_then_def delete_components_def
  delete_tags_def delete_relations_def delete_records_def delete_incoming_def
  remove_entity_def detach_incoming_def unrelate_own_def unrelate_child_def

lemma four_entities_0:
  "four_entities 0 = \<lparr>entities = [0, 1, 2, 3], components = [], tags = [], relations = [],
     eid_comps = [(0, []), (1, []), (2, []), (3, [])],
     eid_tags = [(0, []), (1, []), (2, []), (3, [])],
     eid_rels = [(0, []), (1, []), (2, []), (3, [])], next_id = 4\<rparr>"
  by (simp add: four_entities_def fresh_def ops_defs)

lemma hp_enemy_0:
  "hp_enemy 0 = \<lparr>entities = [0, 1, 2, 3],
     components = [((''hp'', ''int''), [(1, ()), (2, ())])],
     tags = [(Tag ''enemy'', [2, 3])], relations = [],
     eid_comps = [(0, []), (1, [(''hp'', ''int'')]), (2, [(''hp'', ''int'')]), (3, [])],
     eid_tags = [(0, []), (1, []), (2, [Tag ''enemy'']), (3, [Tag ''enemy''])],
     eid_rels = [(0, []), (1, []), (2, []), (3, [])], next_id = 4\<rparr>"
  by (simp add: hp_enemy_def four_entities_def fresh_def E_def ops_defs)

lemma two_edges_0:
  "two_edges 0 = \<lparr>entities = [0, 1, 2, 3], components = [], tags = [],
     relations = [(''r'', [(1, [0]), (2, [1])])],
     eid_comps = [(0, []), (1, []), (2, []), (3, [])],
     eid_tags = [(0, []), (1, []), (2, []), (3, [])],
     eid_rels = [(0, [(''r'', 1)]), (1, [(''r'', 2)]), (2, []), (3, [])], next_id = 4\<rparr>"
  by (simp add: two_edges_def four_entities_def fresh_def E_def ops_defs)

lemma map_of_dd_get:
  "map_of (snd (dd_get k dflt d)) =
     (if map_of d k = None then (map_of d)(k \<mapsto> dflt) else map_of d)"
  by (auto simp: dd_get_def fun_eq_iff map_add_def split: option.splits)

lemma fst_dd_get:
  "fst (dd_get k dflt d) = (case map_of d k of None \<Rightarrow> dflt | Some v \<Rightarrow> v)"
  by (simp add: dd_get_def split: option.splits)

lemma dd_get_present: "map_of d k = Some v \<Longrightarrow> dd_get k dflt d = (v, d)"
  by (simp add: dd_get_def)

lemma lookup_after_dd_get:
  "(case map_of (snd (dd_get k dflt d)) k' of None \<Rightarrow> dflt | Some v \<Rightarrow> v) =
   (case map_of d k' of None \<Rightarrow> dflt | Some v \<Rightarrow> v)"
  by (simp add: map_of_dd_get)

section \<open>The query engine\<close>

lemma comprehension_dd_get:
  assumes "\<And>k d. f k d = (g k (fst (dd_get (key k) dflt d)), snd (dd_get (key k) dflt d))"
  shows "fst (comprehension f ks d) =
           map (\<lambda>k. g k (case map_of d (key k) of None \<Rightarrow> dflt | Some v \<Rightarrow> v)) ks"
proof (induction ks arbitrary: d)
  case Nil
  show ?case by simp
next
  case (Cons k ks)
  have "fst (comprehension f (k # ks) d) =
          g k (fst (dd_get (key k) dflt d)) # fst (comprehension f ks (snd (dd_get (key k) dflt d)))"
    by (simp add: assms split: prod.splits)
  then show ?case
    by (simp add: Cons.IH lookup_after_dd_get fst_dd_get)
qed

lemma intersection_nonempty:
  "ss \<noteq> [] \<Longrightarrow> \<exists>res. intersection ss = Inr res \<and> set res = {x. \<forall>s\<in>set ss. x \<in> set s}"
  by (cases ss) (auto simp: list_all_iff)

lemma comp_sets_query:
  "fst (comprehension (\<lambda>comp d. case dd_get comp [] d of (b, d') \<Rightarrow> (map fst b, d')) comps (components w))
     = map (comp_holders w) comps"
proof -
  have "fst (comprehension (\<lambda>comp d. case dd_get comp [] d of (b, d') \<Rightarrow> (map fst b, d')) comps (components w))
      = map (\<lambda>k. (\<lambda>k b. map fst b) k (case map_of (components w) ((\<lambda>k. k) k) of None \<Rightarrow> [] | Some v \<Rightarrow> v)) comps"
    by (rule comprehension_dd_get) (simp split: prod.splits)
  also have "\<dots> = map (comp_holders w) comps"
    by (simp add: comp_holders_def split: option.splits)
  finally show ?thesis .
qed

lemma tag_sets_query:
  "fst (comprehension (\<lambda>t d. dd_get t [] d) tgs (tags w)) = map (tag_holders w) tgs"
proof -
  have "fst (comprehension (\<lambda>t d. dd_get t [] d) tgs (tags w))
      = map (\<lambda>k. (\<lambda>k b. b) k (case map_of (tags w) ((\<lambda>k. k) k) of None \<Rightarrow> [] | Some v \<Rightarrow> v)) tgs"
    by (rule comprehension_dd_get) simp
  also have "\<dots> = map (tag_holders w) tgs"
    by (simp add: tag_holders_def)
  finally show ?thesis .
qed

lemma rel_sets_query:
  "fst (comprehension (\<lambda>rel d. case dd_get (fst rel) [] d of
          (m, d') \<Rightarrow> ((case map_of m (snd rel) of None \<Rightarrow> [] | Some b \<Rightarrow> b), d')) rels (relations w))
     = map (\<lambda>rel. sources w (fst rel) (snd rel)) rels"
proof -
  have "fst (comprehension (\<lambda>rel d. case dd_get (fst rel) [] d of
          (m, d') \<Rightarrow> ((case map_of m (snd rel) of None \<Rightarrow> [] | Some b \<Rightarrow> b), d')) rels (relations w))
      = map (\<lambda>k. (\<lambda>k m. case map_of m (snd k) of None \<Rightarrow> [] | Some b \<Rightarrow> b) k
                 (case map_of (relations w) (fst k) of None \<Rightarrow> [] | Some v \<Rightarrow> v)) rels"
    by (rule comprehension_dd_get) (simp split: prod.splits)
  also have "\<dots> = map (\<lambda>rel. sources w (fst rel) (snd rel)) rels"
    by (simp add: sources_def split: option.splits)
  finally show ?thesis .
qed

lemma fst_query:
  "fst (query st self comps tgs rels) =
     (case (if comps \<noteq> [] then intersection (sort_key length (map (comp_holders (st self)) comps)) else Inr []) of
        Inl err \<Rightarrow> Inl err
      | Inr a \<Rightarrow>
     (case (if tgs \<noteq> [] then intersection (sort_key length (map (tag_holders (st self)) tgs)) else Inr []) of
        Inl err \<Rightarrow> Inl err
      | Inr b \<Rightarrow>
     (case (if rels \<noteq> [] then intersection (sort_key length (map (\<lambda>rel. sources (st self) (fst rel) (snd rel)) rels)) else Inr []) of
        Inl err \<Rightarrow> Inl err
      | Inr c \<Rightarrow>
          intersection ((if comps \<noteq> [] then [a] else []) @ (if tgs \<noteq> [] then [b] else [])
                        @ (if rels \<noteq> [] then [c] else [])))))"
proof -
  have ne: "\<And>f (xs :: int list list). (sort_key f xs \<noteq> []) = (xs \<noteq> [])"
    by (metis length_sort length_0_conv)
  obtain cs d1 where c1: "comprehension (\<lambda>comp d. case dd_get comp [] d of (b, d') \<Rightarrow> (map fst b, d'))
      comps (components (st self)) = (cs, d1)" by fastforce
  obtain ts d2 where c2: "comprehension (\<lambda>t d. dd_get t [] d) tgs (tags (st self)) = (ts, d2)"
    by fastforce
  obtain rs d3 where c3: "comprehension (\<lambda>rel d. case dd_get (fst rel) [] d of
          (m, d') \<Rightarrow> ((case map_of m (snd rel) of None \<Rightarrow> [] | Some b \<Rightarrow> b), d'))
      rels (relations (st self)) = (rs, d3)" by fastforce
  have cs: "cs = map (comp_holders (st self)) comps"
    using comp_sets_query[of comps "st self"] c1 by simp
  have ts: "ts = map (tag_holders (st self)) tgs"
    using tag_sets_query[of tgs "st self"] c2 by simp
  have rs: "rs = map (\<lambda>rel. sources (st self) (fst rel) (snd rel)) rels"
    using rel_sets_query[of rels "st self"] c3 by simp
  show ?thesis
    unfolding query_def Let_def c1 c2 c3 prod.case ne
    unfolding cs ts rs map_is_Nil_conv
    by (cases "comps = []"; cases "tgs = []"; cases "rels = []") (simp_all split: sum.splits)
qed


lemma sorted_intersection:
  assumes "xs \<noteq> []"
  shows "\<exists>res. intersection (sort_key length (map f xs)) = Inr res \<and>
           set res = {e. \<forall>x\<in>set xs. e \<in> set (f x)}"
proof -
  have "sort_key length (map f xs) \<noteq> []"
    using assms by (metis length_sort length_0_conv map_is_Nil_conv)
  from intersection_nonempty[OF this] obtain res where
    "intersection (sort_key length (map f xs)) = Inr res"
    "set res = {x. \<forall>s\<in>set (sort_key length (map f xs)). x \<in> set s}" by blast
  moreover have "{x. \<forall>s\<in>set (sort_key length (map f xs)). x \<in> set s} = {e. \<forall>x\<in>set xs. e \<in> set (f x)}"
    by auto
  ultimately show ?thesis by simp
qed

lemma category_set:
  "\<exists>a. (if xs \<noteq> [] then intersection (sort_key length (map f xs)) else Inr []) = Inr a \<and>
       (xs \<noteq> [] \<longrightarrow> set a = {e. \<forall>x\<in>set xs. e \<in> set (f x)})"
  using sorted_intersection[of xs f] by (cases "xs = []") auto

text \<open>
  Claim C1. A query that supplies at least one criterion returns, for every registry state,
  exactly the ids found under every requested component key, under every requested tag,
  and in the source set of \<open>relations[name][target]\<close> for every requested pair (the empty
  set when that bucket does not exist): the conjunction of all criteria.
\<close>

theorem query_conjunction:
  assumes "comps \<noteq> [] \<or> tgs \<noteq> [] \<or> rels \<noteq> []"
  shows "\<exists>res. fst (query st self comps tgs rels) = Inr res \<and>
           set res = {e. (\<forall>c\<in>set comps. e \<in> set (comp_holders (st self) c)) \<and>
                         (\<forall>t\<in>set tgs. e \<in> set (tag_holders (st self) t)) \<and>
                         (\<forall>(r, t)\<in>set rels. e \<in> set (sources (st self) r t))}"
proof -
  let ?w = "st self"
  let ?A = "{e. \<forall>c\<in>set comps. e \<in> set (comp_holders ?w c)}"
  let ?B = "{e. \<forall>t\<in>set tgs. e \<in> set (tag_holders ?w t)}"
  let ?C = "{e. \<forall>rel\<in>set rels. e \<in> set (sources ?w (fst rel) (snd rel))}"
  obtain a where a: "(if comps \<noteq> [] then intersection (sort_key length (map (comp_holders ?w) comps)) else Inr []) = Inr a"
    and a_set: "comps \<noteq> [] \<longrightarrow> set a = ?A"
    using category_set[of comps "comp_holders ?w"] by blast
  obtain b where b: "(if tgs \<noteq> [] then intersection (sort_key length (map (tag_holders ?w) tgs)) else Inr []) = Inr b"
    and b_set: "tgs \<noteq> [] \<longrightarrow> set b = ?B"
    using category_set[of tgs "tag_holders ?w"] by blast
  obtain c where c: "(if rels \<noteq> [] then intersection (sort_key length (map (\<lambda>rel. sources ?w (fst rel) (snd rel)) rels)) else Inr []) = Inr c"
    and c_set: "rels \<noteq> [] \<longrightarrow> set c = ?C"
    using category_set[of rels "\<lambda>rel. sources ?w (fst rel) (snd rel)"] by blast
  let ?qs = "(if comps \<noteq> [] then [a] else []) @ (if tgs \<noteq> [] then [b] else []) @ (if rels \<noteq> [] then [c] else [])"
  have q: "fst (query st self comps tgs rels) = intersection ?qs"
    unfolding fst_query a b c sum.case ..
  have "?qs \<noteq> []" using assms by auto
  from intersection_nonempty[OF this] obtain res where
    res: "intersection ?qs = Inr res" and res_set: "set res = {x. \<forall>s\<in>set ?qs. x \<in> set s}" by blast
  have "{x. \<forall>s\<in>set ?qs. x \<in> set s} =
            (if comps \<noteq> [] then set a else UNIV) \<inter> (if tgs \<noteq> [] then set b else UNIV)
            \<inter> (if rels \<noteq> [] then set c else UNIV)"
    by auto
  also have "\<dots> = ?A \<inter> ?B \<inter> ?C"
  proof -
    have "(if comps \<noteq> [] then set a else UNIV) = ?A" using a_set by auto
    moreover have "(if tgs \<noteq> [] then set b else UNIV) = ?B" using b_set by auto
    moreover have "(if rels \<noteq> [] then set c else UNIV) = ?C" using c_set by auto
    ultimately show ?thesis by simp
  qed
  finally have "set res = ?A \<inter> ?B \<inter> ?C" using res_set by simp
  then have "set res = {e. (\<forall>c\<in>set comps. e \<in> set (comp_holders ?w c)) \<and>
                         (\<forall>t\<in>set tgs. e \<in> set (tag_holders ?w t)) \<and>
                         (\<forall>(r, t)\<in>set rels. e \<in> set (sources ?w r t))}"
    by (auto simp: split_beta)
  moreover have "fst (query st self comps tgs rels) = Inr res" using q res by simp
  ultimately show ?thesis by (intro exI[of _ res] conjI)
qed


theorem query_conjunction_witness:
  "[(''hp'', ''int'')] \<noteq> [] \<and>
   (\<exists>res. fst (query hp_enemy 0 [(''hp'', ''int'')] [Tag ''enemy''] []) = Inr res \<and> set res = {2})"
  using query_conjunction[of "[(''hp'', ''int'')]" "[Tag ''enemy'']" "[]" hp_enemy 0]
  by (auto simp: hp_enemy_0 comp_holders_def tag_holders_def)

text \<open>
  Claim C2. The claim asks that a query without any criterion return the empty set. In
  every registry state the call raises instead: line 144 intersects an empty argument
  list, which is a \<open>TypeError\<close>, while lines 134-136 guard that case for each category.
\<close>

theorem query_no_criteria: "fst (query st self [] [] []) = Inl TypeError"
  by (simp add: query_def)

text \<open>
  Claim C9. The claim asks that no tag key ever map to an empty set. Querying a tag that
  no entity holds subscripts the \<open>defaultdict\<close> (line 129) and leaves an empty bucket under
  that tag in a registry constructed empty.
\<close>

theorem query_creates_empty_tag_bucket:
  "fst (query fresh 0 [] [Tag ''x''] []) = Inr [] \<and>
   map_of (tags (snd (query fresh 0 [] [Tag ''x''] []) 0)) (Tag ''x'') = Some []"
  by (simp add: fresh_def ops_defs)

section \<open>Relations and the module-level registry\<close>

text \<open>\<open>relate\<close> and \<open>unrelate\<close> raise \<open>NameError\<close> exactly when the target is not live in the
  registry bound to the module-level name \<open>world\<close>, whichever registry the handle is
  bound to.\<close>

lemma relate_NameError_iff:
  "(fst (relate (Some g) st self r t) = Inl NameError) = (t \<notin> set (entities (st g)))"
  by (auto simp: relate_def Let_def split: option.splits sum.splits prod.splits)

lemma unrelate_NameError_iff:
  "(fst (unrelate (Some g) st self r t) = Inl NameError) = (t \<notin> set (entities (st g)))"
  by (auto simp: unrelate_def Let_def split: option.splits sum.splits prod.splits)

text \<open>
  Claim C3. The claim asks that \<open>relate\<close> and \<open>unrelate\<close> validate the target against the
  registry of the handle. With two registries they validate against the other one: a
  handle of registry 0 relates to id 1, which is not live in registry 0, because the
  module-level \<open>world\<close> is registry 1; a handle of registry 1 is refused id 1, which is
  live in registry 1, because the module-level \<open>world\<close> is registry 0.
\<close>

theorem relate_wrong_registry:
  "1 \<notin> set (entities (two_registries 0)) \<and>
   fst (relate (Some 1) two_registries \<lparr>eid = 0, world = 0\<rparr> ''r'' 1) = Inr () \<and>
   1 \<in> set (entities (two_registries 1)) \<and>
   fst (relate (Some 0) two_registries \<lparr>eid = 0, world = 1\<rparr> ''r'' 1) = Inl NameError \<and>
   fst (unrelate (Some 0) two_registries \<lparr>eid = 0, world = 1\<rparr> ''r'' 1) = Inl NameError"
  by (simp add: two_registries_def fresh_def ops_defs)

text \<open>
  Claim C6. The claim asks that a failing \<open>unrelate\<close> leave every table unchanged. With the
  edges 0 --r--> 1 and 1 --r--> 2, \<open>unrelate\<close> of entity 0 from the live target 2 raises
  \<open>KeyError\<close> at line 75, after line 74 has deleted the current-target record of entity 0:
  entity 0 is still in the source set of \<open>relations["r"][1]\<close> and has no current target.
\<close>

theorem unrelate_failure_changes_state:
  "2 \<in> set (entities (two_edges 0)) \<and>
   current_target (two_edges 0) 0 ''r'' = Some 1 \<and>
   fst (unrelate (Some 0) two_edges (E 0) ''r'' 2) = Inl KeyError \<and>
   current_target (snd (unrelate (Some 0) two_edges (E 0) ''r'' 2) 0) 0 ''r'' = None \<and>
   sources (snd (unrelate (Some 0) two_edges (E 0) ''r'' 2) 0) ''r'' 1 = [0] \<and>
   snd (unrelate (Some 0) two_edges (E 0) ''r'' 2) 0 \<noteq> two_edges 0"
  by (simp add: two_edges_0 E_def unrelate_def dd_get_def sources_def current_target_def)

section \<open>Lifecycle\<close>

text \<open>
  Claim C7. Deleting an id that is not in the live set raises the "not found" error of
  \<open>Entity.__init__\<close> (\<open>NameError\<close>) and leaves the whole store, hence every table of the
  registry, unchanged.
\<close>

theorem delete_entity_not_found:
  "e \<notin> set (entities (st self)) \<Longrightarrow> delete_entity glob st self e = (Inl NameError, st)"
  by (simp add: delete_entity_def Entity_init_def)

theorem delete_entity_not_found_witness:
  "5 \<notin> set (entities (four_entities 0)) \<and>
   delete_entity (Some 0) four_entities 0 5 = (Inl NameError, four_entities)"
  using delete_entity_not_found[of 5 four_entities 0 "Some 0"]
  by (simp add: four_entities_0)

section \<open>Tags\<close>



section \<open>Entity ids\<close>

lemma for_each_keeps:
  assumes "\<And>x s. F (snd (f x s)) = F s"
  shows "F (snd (for_each f xs s)) = F s"
proof (induction xs arbitrary: s)
  case Nil
  show ?case by simp
next
  case (Cons x xs)
  obtain r s' where fx: "f x s = (r, s')" by (cases "f x s")
  have "F s' = F s" using assms[of x s] fx by simp
  then show ?case using Cons.IH[of s'] fx by (cases r) simp_all
qed

lemma and_then_keeps:
  assumes "F (snd r) = F s0" and "\<And>s. F (snd (f s)) = F s"
  shows "F (snd (and_then r f)) = F s0"
proof (cases r)
  case (Pair a s)
  then show ?thesis using assms(1) assms(2)[of s] by (cases a) (simp_all add: and_then_def)
qed

lemma next_id_relate: "next_id (snd (relate glob st self r t) x) = next_id (st x)"
  by (auto simp: relate_def Let_def split: option.splits sum.splits prod.splits)

lemma next_id_unrelate: "next_id (snd (unrelate glob st self r t) x) = next_id (st x)"
  by (auto simp: unrelate_def Let_def split: option.splits sum.splits prod.splits)

lemma next_id_tag: "next_id (snd (tag st self t) x) = next_id (st x)"
  by (auto simp: tag_def Let_def split: option.splits sum.splits prod.splits)

lemma next_id_untag: "next_id (snd (untag st self t) x) = next_id (st x)"
  by (auto simp: untag_def Let_def split: option.splits sum.splits prod.splits)

lemma next_id_setitem: "next_id (snd (setitem st self c v) x) = next_id (st x)"
  by (auto simp: setitem_def Let_def split: option.splits sum.splits prod.splits)

lemma next_id_delitem: "next_id (snd (delitem st self c) x) = next_id (st x)"
  by (auto simp: delitem_def Let_def split: option.splits sum.splits prod.splits)

lemma next_id_query: "next_id (snd (query st self cs ts rs) x) = next_id (st x)"
  by (auto simp: query_def Let_def split: option.splits sum.splits prod.splits)

lemma next_id_unrelate_own: "next_id (snd (unrelate_own glob entity r st) x) = next_id (st x)"
  by (auto simp: unrelate_own_def next_id_unrelate split: option.splits sum.splits)

lemma next_id_unrelate_child: "next_id (snd (unrelate_child glob r e c st) x) = next_id (st x)"
  by (auto simp: unrelate_child_def next_id_unrelate split: option.splits sum.splits)

lemma next_id_detach_incoming: "next_id (snd (detach_incoming glob self e r st) x) = next_id (st x)"
  unfolding detach_incoming_def
  by (rule for_each_keeps[where F = "\<lambda>s. next_id (s x)"]) (rule next_id_unrelate_child)

lemma next_id_delete_components: "next_id (snd (delete_components entity st) x) = next_id (st x)"
  unfolding delete_components_def
  by (auto split: sum.splits intro!: for_each_keeps[where F = "\<lambda>s. next_id (s x)"] next_id_delitem)

lemma next_id_delete_tags: "next_id (snd (delete_tags entity st) x) = next_id (st x)"
  unfolding delete_tags_def
  by (auto split: sum.splits intro!: for_each_keeps[where F = "\<lambda>s. next_id (s x)"] next_id_untag)

lemma next_id_delete_relations: "next_id (snd (delete_relations glob entity st) x) = next_id (st x)"
  unfolding delete_relations_def
  by (auto split: sum.splits intro!: for_each_keeps[where F = "\<lambda>s. next_id (s x)"] next_id_unrelate_own)

lemma next_id_delete_records: "next_id (snd (delete_records self e st) x) = next_id (st x)"
  by (auto simp: delete_records_def Let_def)

lemma next_id_delete_incoming: "next_id (snd (delete_incoming glob self e st) x) = next_id (st x)"
  unfolding delete_incoming_def
  by (rule for_each_keeps[where F = "\<lambda>s. next_id (s x)"]) (rule next_id_detach_incoming)

lemma next_id_remove_entity: "next_id (snd (remove_entity self e st) x) = next_id (st x)"
  by (auto simp: remove_entity_def Let_def)

lemma next_id_delete_entity: "next_id (snd (delete_entity glob st self e) x) = next_id (st x)"
proof (cases "Entity_init st e self")
  case (Inl err)
  then show ?thesis by (simp add: delete_entity_def)
next
  case (Inr entity)
  show ?thesis
    unfolding delete_entity_def Inr sum.case
    by (intro and_then_keeps[where F = "\<lambda>s. next_id (s x)"] next_id_delete_components
        next_id_delete_tags next_id_delete_relations next_id_delete_records
        next_id_delete_incoming next_id_remove_entity)
qed

lemma create_entity_result:
  "fst (create_entity st self) = Inr \<lparr>eid = next_id (st self), world = self\<rparr>"
  by (simp add: create_entity_def Let_def Entity_init_def add_def)

lemma next_id_create_entity:
  "next_id (snd (create_entity st self) x) = (if x = self then next_id (st x) + 1 else next_id (st x))"
  by (simp add: create_entity_def Let_def)

lemma next_id_step:
  "next_id (step glob self x st self) = next_id (st self) + (if is_create x then 1 else 0)"
  by (cases x) (simp_all add: next_id_create_entity next_id_delete_entity next_id_setitem
      next_id_delitem next_id_tag next_id_untag next_id_relate next_id_unrelate next_id_query)

lemma map_upt_shift: "map f [0..<Suc k] = f 0 # map (\<lambda>n. f (Suc n)) [0..<k]"
  by (simp add: upt_conv_Cons map_Suc_upt[symmetric] comp_def del: upt_Suc)

lemma created_from:
  "created glob self xs st =
     map (\<lambda>n. Inr \<lparr>eid = next_id (st self) + int n, world = self\<rparr>) [0..<length (filter is_create xs)]"
proof (induction xs arbitrary: st)
  case Nil
  show ?case by simp
next
  case (Cons x xs)
  show ?case
  proof (cases "is_create x")
    case True
    then have x: "x = Create" by (cases x) simp_all
    show ?thesis
      using Cons.IH[of "step glob self x st"] x
      by (simp add: create_entity_result next_id_create_entity map_upt_shift ac_simps del: upt_Suc)
  next
    case False
    then have "(case x of Create \<Rightarrow> [fst (create_entity st self)] | _ \<Rightarrow> []) = []"
      by (cases x) simp_all
    then show ?thesis
      using Cons.IH[of "step glob self x st"] False by (simp add: next_id_step)
  qed
qed

text \<open>
  Claim C10. \<open>create_entity\<close> returns a handle for the current value of the counter and
  increments the counter by one; \<open>delete_entity\<close> never changes the counter; so in every
  sequence of public operations on a registry constructed empty, the n-th call of
  \<open>create_entity\<close> returns the handle of id n-1.
\<close>

theorem create_entity_ids:
  "fst (create_entity st self) = Inr \<lparr>eid = next_id (st self), world = self\<rparr> \<and>
   next_id (snd (create_entity st self) self) = next_id (st self) + 1 \<and>
   next_id (snd (delete_entity glob st self e) self) = next_id (st self) \<and>
   created glob self xs (st(self := World_init)) =
     map (\<lambda>n. Inr \<lparr>eid = int n, world = self\<rparr>) [0..<length (filter is_create xs)]"
  by (simp add: create_entity_result next_id_create_entity next_id_delete_entity created_from
      World_init_def)

section \<open>Relation edges\<close>

text \<open>What a successful \<open>unrelate\<close> and a successful \<open>relate\<close> do to the two views of the
  relation tables, and that \<open>unrelate\<close> of the current edge keeps them consistent.\<close>

lemma sources_memD:
  "c \<in> set (sources w r t) \<Longrightarrow>
     \<exists>m b. map_of (relations w) r = Some m \<and> map_of m t = Some b \<and> c \<in> set b"
  by (cases "map_of (relations w) r"; cases "map_of (the (map_of (relations w) r)) t")
     (simp_all add: sources_def)

lemma current_targetD:
  "current_target w e r = Some t \<Longrightarrow>
     \<exists>mine. map_of (eid_rels w) e = Some mine \<and> map_of mine r = Some t"
  by (cases "map_of (eid_rels w) e") (simp_all add: current_target_def)

lemma unrelate_succeeds:
  assumes "t \<in> set (entities (st g))"
    and "current_target (st (world self)) (eid self) r = Some t"
    and "eid self \<in> set (sources (st (world self)) r t)"
  shows "\<exists>w'. unrelate (Some g) st self r t = (Inr (), st(world self := w')) \<and>
               unrelated (st (world self)) (eid self) r t w'"
proof -
  let ?w = "st (world self)"
  from sources_memD[OF assms(3)] obtain m b where m: "map_of (relations ?w) r = Some m"
    and b: "map_of m t = Some b" and eb: "eid self \<in> set b"
    by blast
  from current_targetD[OF assms(2)] obtain mine where mine: "map_of (eid_rels ?w) (eid self) = Some mine"
    and tgt: "map_of mine r = Some t"
    by blast
  let ?b' = "removeAll (eid self) b"
  let ?m' = "if ?b' = [] then AList.delete t (AList.update t ?b' m) else AList.update t ?b' m"
  let ?w' = "?w\<lparr>relations := relations ?w,
                 eid_rels := AList.update (eid self) (AList.delete r mine) (eid_rels ?w),
                 relations := AList.update r ?m' (relations ?w)\<rparr>"
  have run: "unrelate (Some g) st self r t = (Inr (), st(world self := ?w'))"
    using assms(1) m b eb mine tgt
    by (simp add: unrelate_def Let_def dd_get_present)
  have src: "sources ?w r t = b" using m b by (simp add: sources_def)
  have "unrelated ?w (eid self) r t ?w'"
    unfolding unrelated_def
  proof (intro conjI allI)
    fix e' r'
    show "current_target ?w' e' r' = (if e' = eid self \<and> r' = r then None else current_target ?w e' r')"
      using mine by (simp add: current_target_def update_conv' delete_conv')
  next
    fix r' t'
    show "sources ?w' r' t' = (if r' = r \<and> t' = t then removeAll (eid self) (sources ?w r t)
                               else sources ?w r' t')"
      unfolding src using m b
      by (simp add: sources_def update_conv' delete_conv')
  next
    fix e'
    show "(map_of (eid_rels ?w') e' = None) = (map_of (eid_rels ?w) e' = None)"
      using mine by (simp add: update_conv')
  qed simp_all
  then show ?thesis using run by blast
qed

lemma unrelatedD:
  assumes "unrelated w e r t w'"
  shows "entities w' = entities w"
    and "current_target w' e r = None"
    and "\<And>e' r'. e' \<noteq> e \<or> r' \<noteq> r \<Longrightarrow> current_target w' e' r' = current_target w e' r'"
    and "sources w' r t = removeAll e (sources w r t)"
    and "\<And>r' t'. r' \<noteq> r \<or> t' \<noteq> t \<Longrightarrow> sources w' r' t' = sources w r' t'"
    and "\<And>e'. (map_of (eid_rels w') e' = None) = (map_of (eid_rels w) e' = None)"
  using assms unfolding unrelated_def by auto

lemma rel_inv_unrelated:
  assumes "rel_inv w" and "current_target w e r = Some t" and "unrelated w e r t w'"
  shows "rel_inv w'"
proof -
  note u = unrelatedD[OF assms(3)]
  have a: "\<And>c r t. current_target w c r = Some t \<Longrightarrow> t \<in> set (entities w) \<and> c \<in> set (sources w r t)"
    and b: "\<And>r t c. c \<in> set (sources w r t) \<Longrightarrow> c \<in> set (entities w) \<and> current_target w c r = Some t"
    and d: "\<And>r t. distinct (sources w r t)"
    using assms(1) unfolding rel_inv_def by blast+
  show ?thesis
    unfolding rel_inv_def
  proof (intro conjI allI impI)
    fix c r' t' assume h: "current_target w' c r' = Some t'"
    have ne: "c \<noteq> e \<or> r' \<noteq> r" using h u(2) by auto
    then have old: "current_target w c r' = Some t'" using h u(3)[of c r'] by simp
    show "t' \<in> set (entities w')" using a[OF old] u(1) by simp
    have mem: "c \<in> set (sources w r' t')" using a[OF old] by simp
    show "c \<in> set (sources w' r' t')"
    proof (cases "r' = r \<and> t' = t")
      case True
      then have "c \<noteq> e" using ne by simp
      then show ?thesis using True mem u(4) by simp
    next
      case False
      then show ?thesis using mem u(5)[of r' t'] by auto
    qed
  next
    fix r' t' c assume h: "c \<in> set (sources w' r' t')"
    have old: "c \<in> set (sources w r' t') \<and> (r' = r \<and> t' = t \<longrightarrow> c \<noteq> e)"
    proof (cases "r' = r \<and> t' = t")
      case True
      then show ?thesis using h u(4) by auto
    next
      case False
      then show ?thesis using h u(5)[of r' t'] by auto
    qed
    show "c \<in> set (entities w')" using b[of c r' t'] old u(1) by simp
    have cur: "current_target w c r' = Some t'" using b[of c r' t'] old by simp
    have "c \<noteq> e \<or> r' \<noteq> r"
    proof (rule ccontr)
      assume "\<not> (c \<noteq> e \<or> r' \<noteq> r)"
      then have ce: "c = e" "r' = r" by auto
      then have "t' = t" using cur assms(2) by simp
      then show False using old ce by simp
    qed
    then show "current_target w' c r' = Some t'" using cur u(3)[of c r'] by simp
  next
    fix r' t' show "distinct (sources w' r' t')"
    proof (cases "r' = r \<and> t' = t")
      case True
      then show ?thesis using d[of r t] u(4) by (simp add: distinct_removeAll)
    next
      case False
      then show ?thesis using d[of r' t'] u(5)[of r' t'] by auto
    qed
  qed
qed

lemma sources_bucket:
  "sources w r t = bucket (fst (dd_get r [] (relations w))) t"
  by (simp add: sources_def bucket_def fst_dd_get split: option.splits)

lemma bucket_update: "bucket (AList.update k v m) t = (if t = k then v else bucket m t)"
  by (simp add: bucket_def update_conv')

lemma sources_update_relations:
  "sources (w\<lparr>relations := AList.update r m rs\<rparr>) r' t =
     (if r' = r then bucket m t
      else (case map_of rs r' of None \<Rightarrow> [] | Some m' \<Rightarrow> bucket m' t))"
  by (simp add: sources_def bucket_def update_conv' split: option.splits)

lemma relate_succeeds:
  assumes live: "t \<in> set (entities (st g))"
    and mine: "map_of (eid_rels (st (world self))) (eid self) = Some mine"
    and old: "\<And>x. map_of mine r = Some x \<Longrightarrow> eid self \<in> set (sources (st (world self)) r x)"
  shows "\<exists>w'. relate (Some g) st self r t = (Inr (), st(world self := w')) \<and>
               related (st (world self)) (eid self) r t w'"
proof -
  let ?w = "st (world self)"
  let ?e = "eid self"
  obtain rels relations1 where dd: "dd_get r [] (relations ?w) = (rels, relations1)"
    by fastforce
  have rels: "rels = fst (dd_get r [] (relations ?w))"
    and relations1: "relations1 = snd (dd_get r [] (relations ?w))" using dd by simp_all
  have src: "\<And>x. sources ?w r x = bucket rels x" by (simp add: sources_bucket rels)
  have cur: "current_target ?w ?e r = map_of mine r" using mine by (simp add: current_target_def)
  define rels2 where "rels2 = (case map_of mine r of None \<Rightarrow> rels
      | Some x \<Rightarrow> AList.update x (removeAll ?e (bucket rels x)) rels)"
  have step1: "(case map_of mine r of
                  None \<Rightarrow> Inr rels
                | Some x \<Rightarrow>
                    (case map_of rels x of
                       None \<Rightarrow> Inl KeyError
                     | Some b \<Rightarrow> if ?e \<notin> set b then Inl KeyError
                                 else Inr (AList.update x (removeAll ?e b) rels))) = Inr rels2"
  proof (cases "map_of mine r")
    case None
    then show ?thesis by (simp add: rels2_def)
  next
    case (Some x)
    have "?e \<in> set (bucket rels x)" using old[OF Some] src by simp
    then obtain b where "map_of rels x = Some b" "?e \<in> set b" "bucket rels x = b"
      by (cases "map_of rels x") (simp_all add: bucket_def)
    then show ?thesis using Some by (simp add: rels2_def)
  qed
  have b2: "\<And>x. bucket rels2 x = detached ?w ?e r x"
  proof -
    fix x
    show "bucket rels2 x = detached ?w ?e r x"
    proof (cases "map_of mine r")
      case None
      then show ?thesis by (simp add: rels2_def detached_def cur src)
    next
      case (Some y)
      then show ?thesis by (auto simp: rels2_def detached_def cur src bucket_update)
    qed
  qed
  define rels3 where "rels3 = (if map_of rels2 t = None then AList.update t [] rels2 else rels2)"
  define rels4 where "rels4 = AList.update t (add ?e (the (map_of rels3 t))) rels3"
  have the3: "the (map_of rels3 t) = bucket rels2 t"
    by (cases "map_of rels2 t") (simp_all add: rels3_def bucket_def update_conv')
  have b3: "\<And>x. bucket rels3 x = bucket rels2 x"
    by (simp add: rels3_def bucket_update) (simp add: bucket_def)
  have b4: "\<And>x. bucket rels4 x = (if x = t then add ?e (detached ?w ?e r t) else detached ?w ?e r x)"
    by (simp add: rels4_def bucket_update the3 b3 b2)
  let ?w' = "?w\<lparr>relations := relations1,
                 eid_rels := AList.update ?e (AList.update r t mine) (eid_rels ?w),
                 relations := AList.update r rels4 relations1\<rparr>"
  have run: "relate (Some g) st self r t = (Inr (), st(world self := ?w'))"
    using live mine step1
    by (simp add: relate_def dd Let_def rels3_def rels4_def)
  have other: "\<And>r' x. r' \<noteq> r \<Longrightarrow>
      (case map_of relations1 r' of None \<Rightarrow> [] | Some m' \<Rightarrow> bucket m' x) = sources ?w r' x"
    by (simp add: relations1 map_of_dd_get sources_def bucket_def split: option.splits)
  have "related ?w ?e r t ?w'"
    unfolding related_def
  proof (intro conjI allI)
    fix e' r'
    show "current_target ?w' e' r' = (if e' = ?e \<and> r' = r then Some t else current_target ?w e' r')"
      using mine by (simp add: current_target_def update_conv')
  next
    fix r' t'
    show "sources ?w' r' t' =
        (if r' \<noteq> r then sources ?w r' t'
         else if t' = t then add ?e (detached ?w ?e r t) else detached ?w ?e r t')"
      using sources_update_relations[where w = "?w\<lparr>relations := relations1,
                 eid_rels := AList.update ?e (AList.update r t mine) (eid_rels ?w)\<rparr>"
          and r = r and m = rels4 and rs = relations1 and r' = r' and t = t']
      by (simp add: b4 other)
  next
    fix e'
    show "(map_of (eid_rels ?w') e' = None) = (map_of (eid_rels ?w) e' = None)"
      using mine by (simp add: update_conv')
  qed simp_all
  then show ?thesis using run by blast
qed

text \<open>A registry constructed empty is consistent.\<close>

lemma consistent_World_init: "consistent World_init"
  by (simp add: consistent_def World_init_def)

lemma consistent_records:
  assumes "consistent w" and "e \<in> set (entities w)"
  shows "\<exists>cs ts rs. map_of (eid_comps w) e = Some cs \<and> map_of (eid_tags w) e = Some ts \<and>
                     map_of (eid_rels w) e = Some rs"
  using assms unfolding consistent_def list_all_iff by auto

lemma consistent_comps:
  assumes "consistent w" and "map_of (eid_comps w) e = Some cs"
  shows "distinct cs \<and> (\<forall>c\<in>set cs. e \<in> set (comp_holders w c))"
proof -
  have "(e, cs) \<in> set (eid_comps w)" using assms(2) by (rule map_of_SomeD)
  then show ?thesis using assms(1) unfolding consistent_def list_all_iff by auto
qed

lemma consistent_tags:
  assumes "consistent w" and "map_of (eid_tags w) e = Some ts"
  shows "distinct ts \<and> (\<forall>t\<in>set ts. e \<in> set (tag_holders w t))"
proof -
  have "(e, ts) \<in> set (eid_tags w)" using assms(2) by (rule map_of_SomeD)
  then show ?thesis using assms(1) unfolding consistent_def list_all_iff by auto
qed

lemma consistent_rels:
  assumes "consistent w" and "map_of (eid_rels w) e = Some rs"
  shows "distinct (map fst rs)"
proof -
  have "(e, rs) \<in> set (eid_rels w)" using assms(2) by (rule map_of_SomeD)
  then show ?thesis using assms(1) unfolding consistent_def list_all_iff by auto
qed

lemma consistent_eid_rels:
  assumes "consistent w" and "(e, rs) \<in> set (eid_rels w)" and "(r, t) \<in> set rs"
  shows "t \<in> set (entities w) \<and> e \<in> set (sources w r t)"
proof -
  have "\<forall>x\<in>set (eid_rels w). case x of (e, rs) \<Rightarrow> distinct (map fst rs) \<and>
          (\<forall>y\<in>set rs. case y of (r, t) \<Rightarrow> t \<in> set (entities w) \<and> e \<in> set (sources w r t))"
    using assms(1) unfolding consistent_def list_all_iff by blast
  from bspec[OF this assms(2)]
  have "\<forall>y\<in>set rs. case y of (r, t) \<Rightarrow> t \<in> set (entities w) \<and> e \<in> set (sources w r t)"
    by simp
  from bspec[OF this assms(3)] show ?thesis by simp
qed

lemma consistent_relations:
  assumes "consistent w" and "(r, m) \<in> set (relations w)" and "(t, b) \<in> set m"
  shows "distinct b \<and> (\<forall>c\<in>set b. c \<in> set (entities w) \<and> current_target w c r = Some t)"
proof -
  have "\<forall>x\<in>set (relations w). case x of (r, m) \<Rightarrow>
          (\<forall>y\<in>set m. case y of (t, b) \<Rightarrow> distinct b \<and>
             (\<forall>c\<in>set b. c \<in> set (entities w) \<and> current_target w c r = Some t))"
    using assms(1) unfolding consistent_def list_all_iff by blast
  from bspec[OF this assms(2)]
  have "\<forall>y\<in>set m. case y of (t, b) \<Rightarrow> distinct b \<and>
             (\<forall>c\<in>set b. c \<in> set (entities w) \<and> current_target w c r = Some t)"
    by simp
  from bspec[OF this assms(3)] show ?thesis by simp
qed

lemma consistent_rel_inv:
  assumes "consistent w"
  shows "rel_inv w"
  unfolding rel_inv_def
proof (intro conjI allI impI)
  fix c r t assume "current_target w c r = Some t"
  from current_targetD[OF this] obtain mine where
    "map_of (eid_rels w) c = Some mine" "map_of mine r = Some t" by blast
  then have "(c, mine) \<in> set (eid_rels w)" "(r, t) \<in> set mine"
    by (auto dest: map_of_SomeD)
  then show "t \<in> set (entities w)" "c \<in> set (sources w r t)"
    using consistent_eid_rels[OF assms] by blast+
next
  fix r t c assume "c \<in> set (sources w r t)"
  from sources_memD[OF this] obtain m b where
    "map_of (relations w) r = Some m" "map_of m t = Some b" "c \<in> set b" by blast
  then have "(r, m) \<in> set (relations w)" "(t, b) \<in> set m" "c \<in> set b"
    by (auto dest: map_of_SomeD)
  then show "c \<in> set (entities w)" "current_target w c r = Some t"
    using consistent_relations[OF assms] by blast+
next
  fix r t
  show "distinct (sources w r t)"
  proof (cases "sources w r t = []")
    case True
    then show ?thesis by simp
  next
    case False
    then obtain c where "c \<in> set (sources w r t)" by (cases "sources w r t") auto
    from sources_memD[OF this] obtain m b where
      mb: "map_of (relations w) r = Some m" "map_of m t = Some b" by blast
    then have "(r, m) \<in> set (relations w)" "(t, b) \<in> set m"
      by (auto dest: map_of_SomeD)
    then have "distinct b" using consistent_relations[OF assms] by blast
    then show ?thesis using mb by (simp add: sources_def)
  qed
qed

lemma rel_invD:
  assumes "rel_inv w"
  shows "\<And>c r t. current_target w c r = Some t \<Longrightarrow> t \<in> set (entities w)"
    and "\<And>c r t. current_target w c r = Some t \<Longrightarrow> c \<in> set (sources w r t)"
    and "\<And>r t c. c \<in> set (sources w r t) \<Longrightarrow> c \<in> set (entities w)"
    and "\<And>r t c. c \<in> set (sources w r t) \<Longrightarrow> current_target w c r = Some t"
    and "\<And>r t. distinct (sources w r t)"
  using assms unfolding rel_inv_def by blast+

lemma relatedD:
  assumes "related w e r t w'"
  shows "entities w' = entities w"
    and "current_target w' e r = Some t"
    and "\<And>t'. sources w' r t' = (if t' = t then add e (detached w e r t) else detached w e r t')"
    and "\<And>e'. (map_of (eid_rels w') e' = None) = (map_of (eid_rels w) e' = None)"
  using assms unfolding related_def by auto

lemma related_exclusive:
  assumes rel: "related w e r t w'"
    and fwd: "\<And>x. e \<in> set (sources w r x) \<Longrightarrow> current_target w e r = Some x"
  shows "(e \<in> set (sources w' r x)) = (x = t)"
proof (cases "x = t")
  case True
  then show ?thesis using relatedD(3)[OF rel, of x] by (simp add: add_def)
next
  case False
  have "e \<notin> set (detached w e r x)"
    using fwd[of x] by (auto simp: detached_def)
  then show ?thesis using False relatedD(3)[OF rel, of x] by simp
qed

text \<open>
  What holds when the module-level name \<open>world\<close> is bound, to the registry of the handle
  or to any other registry \<open>g\<close>, and both targets are live in that registry: for an entity
  \<open>e\<close> of a consistent registry and \<open>a \<noteq> b\<close>, \<open>relate(e, r, a)\<close> and then \<open>relate(e, r, b)\<close> both
  succeed, the current target of \<open>e\<close> for \<open>r\<close> is then \<open>b\<close>, and \<open>e\<close> is in the source set of
  \<open>relations[r][t]\<close> for \<open>t = b\<close> only.
\<close>

lemma relate_replaces_target_bound:
  assumes "consistent (st self)"
    and "e \<in> set (entities (st self))"
    and "a \<in> set (entities (st g))"
    and "b \<in> set (entities (st g))"
    and "a \<noteq> b"
  shows "\<exists>st1 st2.
           relate (Some g) st \<lparr>eid = e, world = self\<rparr> r a = (Inr (), st1) \<and>
           relate (Some g) st1 \<lparr>eid = e, world = self\<rparr> r b = (Inr (), st2) \<and>
           current_target (st2 self) e r = Some b \<and>
           e \<notin> set (sources (st2 self) r a) \<and>
           (\<forall>t. (e \<in> set (sources (st2 self) r t)) = (t = b))"
proof -
  let ?h = "\<lparr>eid = e, world = self\<rparr>"
  let ?w = "st self"
  have inv: "rel_inv ?w" using assms(1) by (rule consistent_rel_inv)
  from consistent_records[OF assms(1,2)] obtain mine where
    mine: "map_of (eid_rels ?w) e = Some mine" by blast
  have old: "\<And>x. map_of mine r = Some x \<Longrightarrow> e \<in> set (sources ?w r x)"
    using rel_invD(2)[OF inv, of e r] mine by (simp add: current_target_def)
  from relate_succeeds[of a st g ?h mine r] assms(3) mine old
  obtain w1 where run1: "relate (Some g) st ?h r a = (Inr (), st(self := w1))"
    and rel1: "related ?w e r a w1" by auto
  let ?st1 = "st(self := w1)"
  have ex1: "\<And>x. (e \<in> set (sources w1 r x)) = (x = a)"
    using related_exclusive[OF rel1] rel_invD(4)[OF inv] by blast
  have cur1: "current_target w1 e r = Some a" using relatedD(2)[OF rel1] .
  obtain mine1 where mine1: "map_of (eid_rels w1) e = Some mine1"
    using relatedD(4)[OF rel1, of e] mine by (cases "map_of (eid_rels w1) e") auto
  have old1: "\<And>x. map_of mine1 r = Some x \<Longrightarrow> e \<in> set (sources w1 r x)"
    using cur1 mine1 ex1 by (simp add: current_target_def)
  have live1: "b \<in> set (entities (?st1 g))"
    using assms(4) relatedD(1)[OF rel1] by (cases "g = self") simp_all
  from relate_succeeds[of b ?st1 g ?h mine1 r] live1 mine1 old1
  obtain w2 where run2: "relate (Some g) ?st1 ?h r b = (Inr (), ?st1(self := w2))"
    and rel2: "related w1 e r b w2" by auto
  have ex2: "\<And>x. (e \<in> set (sources w2 r x)) = (x = b)"
  proof -
    fix x
    have "\<And>y. e \<in> set (sources w1 r y) \<Longrightarrow> current_target w1 e r = Some y"
      using ex1 cur1 by simp
    from related_exclusive[OF rel2 this] show "(e \<in> set (sources w2 r x)) = (x = b)" by blast
  qed
  have "current_target w2 e r = Some b" using relatedD(2)[OF rel2] .
  moreover have "e \<notin> set (sources w2 r a)" using ex2[of a] assms(5) by simp
  ultimately show ?thesis using run1 run2 ex2
    by (intro exI[of _ ?st1] exI[of _ "?st1(self := w2)"]) simp
qed

lemma relate_replaces_target_example:
  "consistent (four_entities 0) \<and> 0 \<in> set (entities (four_entities 0)) \<and>
   1 \<in> set (entities (four_entities 0)) \<and> 2 \<in> set (entities (four_entities 0)) \<and>
   (1::int) \<noteq> 2 \<and>
   (\<exists>st1 st2.
      relate (Some 0) four_entities \<lparr>eid = 0, world = 0\<rparr> ''parent'' 1 = (Inr (), st1) \<and>
      relate (Some 0) st1 \<lparr>eid = 0, world = 0\<rparr> ''parent'' 2 = (Inr (), st2) \<and>
      current_target (st2 0) 0 ''parent'' = Some 2 \<and>
      0 \<notin> set (sources (st2 0) ''parent'' 1))"
proof -
  have c: "consistent (four_entities 0)"
    by (simp add: four_entities_0 consistent_def)
  have l: "0 \<in> set (entities (four_entities 0))" "1 \<in> set (entities (four_entities 0))"
    "2 \<in> set (entities (four_entities 0))"
    by (simp_all add: four_entities_0)
  from relate_replaces_target_bound[of four_entities 0 0 1 0 2 "''parent''"] c l
  have "\<exists>st1 st2.
      relate (Some 0) four_entities \<lparr>eid = 0, world = 0\<rparr> ''parent'' 1 = (Inr (), st1) \<and>
      relate (Some 0) st1 \<lparr>eid = 0, world = 0\<rparr> ''parent'' 2 = (Inr (), st2) \<and>
      current_target (st2 0) 0 ''parent'' = Some 2 \<and>
      0 \<notin> set (sources (st2 0) ''parent'' 1)"
    by auto
  then show ?thesis using c l by simp
qed

section \<open>Cascade delete\<close>

text \<open>A loop whose body keeps an invariant of the remaining elements and the state, and
  does not raise under it, runs to the end.\<close>

lemma for_each_invariant:
  assumes "I xs s"
    and "\<And>x xs s. I (x # xs) s \<Longrightarrow> \<exists>s'. f x s = (Inr (), s') \<and> I xs s'"
  shows "\<exists>s'. for_each f xs s = (Inr (), s') \<and> I [] s'"
  using assms(1)
proof (induction xs arbitrary: s)
  case Nil
  then show ?case by simp
next
  case (Cons x xs)
  from assms(2)[OF Cons.prems] obtain s' where "f x s = (Inr (), s')" "I xs s'" by blast
  then show ?case using Cons.IH[of s'] by simp
qed

lemma delitem_held:
  assumes "st self = w\<lparr>components := X, eid_comps := Y\<rparr>"
    and "map_of Y e = Some (c # cs)" and "c \<notin> set cs"
    and "map_of X c = Some d" and "map_of d e \<noteq> None"
  shows "delitem st \<lparr>eid = e, world = self\<rparr> c =
           (Inr (), st(self := w\<lparr>components := AList.update c (AList.delete e d) X,
                                  eid_comps := AList.update e cs Y\<rparr>))"
  using assms by (auto simp: delitem_def Let_def dd_get_present)

lemma delete_components_ok:
  assumes "map_of (eid_comps (st self)) e = Some cs" and "distinct cs"
    and "\<forall>c\<in>set cs. e \<in> set (comp_holders (st self) c)"
  shows "\<exists>X Y. delete_components \<lparr>eid = e, world = self\<rparr> st =
           (Inr (), st(self := (st self)\<lparr>components := X, eid_comps := Y\<rparr>)) \<and> map_of Y e \<noteq> None"
proof -
  let ?w = "st self"
  let ?I = "\<lambda>cs' s. \<exists>X Y. s = st(self := ?w\<lparr>components := X, eid_comps := Y\<rparr>) \<and>
              map_of Y e = Some cs' \<and> distinct cs' \<and>
              (\<forall>c\<in>set cs'. \<exists>d. map_of X c = Some d \<and> map_of d e \<noteq> None)"
  have held: "\<forall>c\<in>set cs. \<exists>d. map_of (components ?w) c = Some d \<and> map_of d e \<noteq> None"
  proof
    fix c assume "c \<in> set cs"
    then have "e \<in> set (comp_holders ?w c)" using assms(3) by blast
    then show "\<exists>d. map_of (components ?w) c = Some d \<and> map_of d e \<noteq> None"
      by (cases "map_of (components ?w) c") (auto simp: comp_holders_def map_of_eq_None_iff)
  qed
  have init: "?I cs st"
    using assms(1,2) held
    by (intro exI[of _ "components ?w"] exI[of _ "eid_comps ?w"]) simp
  have step: "\<And>x xs s. ?I (x # xs) s \<Longrightarrow>
      \<exists>s'. delitem s \<lparr>eid = e, world = self\<rparr> x = (Inr (), s') \<and> ?I xs s'"
  proof -
    fix x xs s assume "?I (x # xs) s"
    then obtain X Y where s: "s = st(self := ?w\<lparr>components := X, eid_comps := Y\<rparr>)"
      and Y: "map_of Y e = Some (x # xs)" and dist: "distinct (x # xs)"
      and h: "\<forall>c\<in>set (x # xs). \<exists>d. map_of X c = Some d \<and> map_of d e \<noteq> None" by blast
    from h obtain d where d: "map_of X x = Some d" "map_of d e \<noteq> None" by auto
    have sw: "s self = ?w\<lparr>components := X, eid_comps := Y\<rparr>" using s by simp
    have run: "delitem s \<lparr>eid = e, world = self\<rparr> x =
        (Inr (), s(self := ?w\<lparr>components := AList.update x (AList.delete e d) X,
                                  eid_comps := AList.update e xs Y\<rparr>))"
      using delitem_held[where st = s and self = self and w = "?w" and X = X and Y = Y
          and e = e and c = x and cs = xs and d = d] sw Y d dist by simp
    have "?I xs (s(self := ?w\<lparr>components := AList.update x (AList.delete e d) X,
                                  eid_comps := AList.update e xs Y\<rparr>))"
    proof (intro exI conjI)
      show "s(self := ?w\<lparr>components := AList.update x (AList.delete e d) X,
                                  eid_comps := AList.update e xs Y\<rparr>) =
            st(self := ?w\<lparr>components := AList.update x (AList.delete e d) X,
                                  eid_comps := AList.update e xs Y\<rparr>)"
        using s by simp
      show "map_of (AList.update e xs Y) e = Some xs" by (simp add: update_conv')
      show "distinct xs" using dist by simp
      show "\<forall>c\<in>set xs. \<exists>d'. map_of (AList.update x (AList.delete e d) X) c = Some d' \<and> map_of d' e \<noteq> None"
      proof
        fix c assume c: "c \<in> set xs"
        then have "c \<noteq> x" using dist by auto
        then show "\<exists>d'. map_of (AList.update x (AList.delete e d) X) c = Some d' \<and> map_of d' e \<noteq> None"
          using h c by (simp add: update_conv')
      qed
    qed
    then show "\<exists>s'. delitem s \<lparr>eid = e, world = self\<rparr> x = (Inr (), s') \<and> ?I xs s'"
      using run by blast
  qed
  from for_each_invariant[where I = ?I and f = "\<lambda>comp s. delitem s \<lparr>eid = e, world = self\<rparr> comp",
      OF init step]
  obtain s' where "for_each (\<lambda>comp s. delitem s \<lparr>eid = e, world = self\<rparr> comp) cs st = (Inr (), s')"
    and "?I [] s'" by blast
  then show ?thesis using assms(1)
    by (auto simp: delete_components_def getattr_components_def)
qed

lemma untag_held:
  assumes "st self = w\<lparr>eid_tags := Y, tags := X\<rparr>"
    and "map_of Y e = Some (t # ts)" and "t \<notin> set ts"
    and "map_of X t = Some b" and "e \<in> set b"
  shows "\<exists>X'. untag st \<lparr>eid = e, world = self\<rparr> t =
           (Inr (), st(self := w\<lparr>eid_tags := AList.update e ts Y, tags := X'\<rparr>)) \<and>
           (\<forall>t'. t' \<noteq> t \<longrightarrow> map_of X' t' = map_of X t')"
proof (cases "removeAll e b = []")
  case True
  then have "untag st \<lparr>eid = e, world = self\<rparr> t =
      (Inr (), st(self := w\<lparr>eid_tags := AList.update e ts Y, tags := AList.delete t (AList.update t (removeAll e b) X)\<rparr>))"
    using assms by (simp add: untag_def Let_def dd_get_present)
  moreover have "\<forall>t'. t' \<noteq> t \<longrightarrow>
      map_of (AList.delete t (AList.update t (removeAll e b) X)) t' = map_of X t'"
    by (simp add: update_conv' delete_conv')
  ultimately show ?thesis by blast
next
  case False
  then have "untag st \<lparr>eid = e, world = self\<rparr> t =
      (Inr (), st(self := w\<lparr>eid_tags := AList.update e ts Y, tags := AList.update t (removeAll e b) X\<rparr>))"
    using assms by (simp add: untag_def Let_def dd_get_present)
  moreover have "\<forall>t'. t' \<noteq> t \<longrightarrow> map_of (AList.update t (removeAll e b) X) t' = map_of X t'"
    by (simp add: update_conv')
  ultimately show ?thesis by blast
qed

lemma delete_tags_ok:
  assumes "map_of (eid_tags (st self)) e = Some ts" and "distinct ts"
    and "\<forall>t\<in>set ts. e \<in> set (tag_holders (st self) t)"
  shows "\<exists>X Y. delete_tags \<lparr>eid = e, world = self\<rparr> st =
           (Inr (), st(self := (st self)\<lparr>eid_tags := Y, tags := X\<rparr>)) \<and> map_of Y e \<noteq> None"
proof -
  let ?w = "st self"
  let ?h = "\<lparr>eid = e, world = self\<rparr>"
  let ?I = "\<lambda>ts' s. \<exists>X Y. s = st(self := ?w\<lparr>eid_tags := Y, tags := X\<rparr>) \<and>
              map_of Y e = Some ts' \<and> distinct ts' \<and>
              (\<forall>t\<in>set ts'. \<exists>b. map_of X t = Some b \<and> e \<in> set b)"
  have held: "\<forall>t\<in>set ts. \<exists>b. map_of (tags ?w) t = Some b \<and> e \<in> set b"
  proof
    fix t assume "t \<in> set ts"
    then have "e \<in> set (tag_holders ?w t)" using assms(3) by blast
    then show "\<exists>b. map_of (tags ?w) t = Some b \<and> e \<in> set b"
      by (cases "map_of (tags ?w) t") (auto simp: tag_holders_def)
  qed
  have init: "?I ts st"
    using assms(1,2) held
    by (intro exI[of _ "tags ?w"] exI[of _ "eid_tags ?w"]) simp
  have step: "\<And>x xs s. ?I (x # xs) s \<Longrightarrow> \<exists>s'. untag s ?h x = (Inr (), s') \<and> ?I xs s'"
  proof -
    fix x xs s assume "?I (x # xs) s"
    then obtain X Y where s: "s = st(self := ?w\<lparr>eid_tags := Y, tags := X\<rparr>)"
      and Y: "map_of Y e = Some (x # xs)" and dist: "distinct (x # xs)"
      and h: "\<forall>t\<in>set (x # xs). \<exists>b. map_of X t = Some b \<and> e \<in> set b" by blast
    from h obtain b where b: "map_of X x = Some b" "e \<in> set b" by auto
    have sw: "s self = ?w\<lparr>eid_tags := Y, tags := X\<rparr>" using s by simp
    have nx: "x \<notin> set xs" using dist by simp
    from untag_held[where st = s and self = self and w = "?w" and X = X and Y = Y
          and e = e and t = x and ts = xs and b = b] sw Y b nx
    obtain X' where run: "untag s ?h x =
        (Inr (), s(self := ?w\<lparr>eid_tags := AList.update e xs Y, tags := X'\<rparr>))"
      and other: "\<forall>t'. t' \<noteq> x \<longrightarrow> map_of X' t' = map_of X t'" by blast
    have "?I xs (s(self := ?w\<lparr>eid_tags := AList.update e xs Y, tags := X'\<rparr>))"
    proof (intro exI conjI)
      show "s(self := ?w\<lparr>eid_tags := AList.update e xs Y, tags := X'\<rparr>) =
            st(self := ?w\<lparr>eid_tags := AList.update e xs Y, tags := X'\<rparr>)"
        using s by simp
      show "map_of (AList.update e xs Y) e = Some xs" by (simp add: update_conv')
      show "distinct xs" using dist by simp
      show "\<forall>t\<in>set xs. \<exists>b'. map_of X' t = Some b' \<and> e \<in> set b'"
      proof
        fix t assume t: "t \<in> set xs"
        then have "t \<noteq> x" using nx by auto
        then show "\<exists>b'. map_of X' t = Some b' \<and> e \<in> set b'"
          using h t other by simp
      qed
    qed
    then show "\<exists>s'. untag s ?h x = (Inr (), s') \<and> ?I xs s'"
      using run by blast
  qed
  from for_each_invariant[where I = ?I and f = "\<lambda>t s. untag s ?h t", OF init step]
  obtain s' where "for_each (\<lambda>t s. untag s ?h t) ts st = (Inr (), s')"
    and "?I [] s'" by blast
  then show ?thesis using assms(1)
    by (auto simp: delete_tags_def getattr_tags_def)
qed

lemma detaches_refl: "detaches w w"
  by (simp add: detaches_def)

lemma detaches_trans:
  assumes "detaches w w1" and "detaches w1 w2"
  shows "detaches w w2"
  unfolding detaches_def
proof (intro conjI allI)
  fix c r
  show "current_target w2 c r = None \<or> current_target w2 c r = current_target w c r"
    using assms unfolding detaches_def by metis
qed (use assms in \<open>simp_all add: detaches_def\<close>)

lemma unrelated_detaches:
  assumes "unrelated w e r t w'"
  shows "detaches w w'"
  using assms unfolding unrelated_def detaches_def by auto

lemma detachesD:
  assumes "detaches w w'"
  shows "entities w' = entities w" and "eid_comps w' = eid_comps w" and "eid_tags w' = eid_tags w"
    and "\<And>c. (map_of (eid_rels w') c = None) = (map_of (eid_rels w) c = None)"
    and "\<And>c r. current_target w' c r = None \<or> current_target w' c r = current_target w c r"
  using assms unfolding detaches_def by auto

lemma unrelate_ok:
  assumes "t \<in> set (entities (st self))" and "current_target (st self) e r = Some t"
    and "e \<in> set (sources (st self) r t)"
  shows "\<exists>w'. unrelate (Some self) st \<lparr>eid = e, world = self\<rparr> r t = (Inr (), st(self := w')) \<and>
               unrelated (st self) e r t w'"
  using unrelate_succeeds[of t st self "\<lparr>eid = e, world = self\<rparr>" r] assms by simp

lemma unrelate_own_ok:
  assumes inv: "rel_inv (st self)" and cur: "current_target (st self) e k = Some t"
  shows "\<exists>w'. unrelate_own (Some self) \<lparr>eid = e, world = self\<rparr> k st = (Inr (), st(self := w')) \<and>
               unrelated (st self) e k t w'"
proof -
  let ?h = "\<lparr>eid = e, world = self\<rparr>"
  from current_targetD[OF cur] obtain mine where
    mine: "map_of (eid_rels (st self)) e = Some mine" "map_of mine k = Some t" by blast
  have own: "unrelate_own (Some self) ?h k st = unrelate (Some self) st ?h k t"
    using mine by (simp add: unrelate_own_def getattr_relations_def)
  show ?thesis
    unfolding own
    using unrelate_ok[of t st self e k] rel_invD(1)[OF inv cur] cur rel_invD(2)[OF inv cur]
    by blast
qed

lemma delete_relations_ok:
  assumes inv: "rel_inv (st self)"
    and rs: "map_of (eid_rels (st self)) e = Some rs" and dist: "distinct (map fst rs)"
  shows "\<exists>w'. delete_relations (Some self) \<lparr>eid = e, world = self\<rparr> st = (Inr (), st(self := w')) \<and>
               rel_inv w' \<and> detaches (st self) w' \<and> (\<forall>k. current_target w' e k = None)"
proof -
  let ?w = "st self"
  let ?h = "\<lparr>eid = e, world = self\<rparr>"
  let ?I = "\<lambda>ks s. \<exists>w'. s = st(self := w') \<and> rel_inv w' \<and> detaches ?w w' \<and> distinct ks \<and>
              (\<forall>k\<in>set ks. current_target w' e k \<noteq> None) \<and>
              (\<forall>k. k \<notin> set ks \<longrightarrow> current_target w' e k = None)"
  have cur: "\<And>k. current_target ?w e k = map_of rs k" using rs by (simp add: current_target_def)
  have init: "?I (map fst rs) st"
  proof (intro exI[of _ ?w] conjI)
    show "st = st(self := ?w)" by simp
    show "\<forall>k\<in>set (map fst rs). current_target ?w e k \<noteq> None"
      by (simp add: cur map_of_eq_None_iff)
    show "\<forall>k. k \<notin> set (map fst rs) \<longrightarrow> current_target ?w e k = None"
      by (simp add: cur map_of_eq_None_iff)
  qed (use inv dist in \<open>simp_all add: detaches_refl\<close>)
  have step: "\<And>x xs s. ?I (x # xs) s \<Longrightarrow>
      \<exists>s'. unrelate_own (Some self) ?h x s = (Inr (), s') \<and> ?I xs s'"
  proof -
    fix x xs s assume "?I (x # xs) s"
    then obtain w' where s: "s = st(self := w')" and inv': "rel_inv w'" and det: "detaches ?w w'"
      and dist': "distinct (x # xs)"
      and some: "\<forall>k\<in>set (x # xs). current_target w' e k \<noteq> None"
      and none: "\<forall>k. k \<notin> set (x # xs) \<longrightarrow> current_target w' e k = None" by blast
    from some obtain t where t: "current_target w' e x = Some t" by auto
    have sw: "s self = w'" using s by simp
    from unrelate_own_ok[of s self e x t] inv' t sw
    obtain w'' where run: "unrelate_own (Some self) ?h x s = (Inr (), s(self := w''))"
      and un: "unrelated w' e x t w''" by auto
    note u = unrelatedD[OF un]
    have "?I xs (s(self := w''))"
    proof (intro exI[of _ w''] conjI)
      show "s(self := w'') = st(self := w'')" using s by simp
      show "rel_inv w''" using rel_inv_unrelated[OF inv' t un] .
      show "detaches ?w w''" using detaches_trans[OF det unrelated_detaches[OF un]] .
      show "distinct xs" using dist' by simp
      show "\<forall>k\<in>set xs. current_target w'' e k \<noteq> None"
      proof
        fix k assume k: "k \<in> set xs"
        then have "k \<noteq> x" using dist' by auto
        then show "current_target w'' e k \<noteq> None" using u(3)[of e k] some k by simp
      qed
      show "\<forall>k. k \<notin> set xs \<longrightarrow> current_target w'' e k = None"
      proof (intro allI impI)
        fix k assume k: "k \<notin> set xs"
        show "current_target w'' e k = None"
        proof (cases "k = x")
          case True
          then show ?thesis using u(2) by simp
        next
          case False
          then show ?thesis using u(3)[of e k] none k by simp
        qed
      qed
    qed
    then show "\<exists>s'. unrelate_own (Some self) ?h x s = (Inr (), s') \<and> ?I xs s'"
      using run by blast
  qed
  from for_each_invariant[where I = ?I and f = "unrelate_own (Some self) ?h", OF init step]
  obtain s' where "for_each (unrelate_own (Some self) ?h) (map fst rs) st = (Inr (), s')"
    and "?I [] s'" by blast
  then show ?thesis using rs
    by (auto simp: delete_relations_def getattr_relations_def)
qed

lemma rel_inv_cong:
  assumes "rel_inv w" and "entities w' = entities w"
    and "\<And>c r. current_target w' c r = current_target w c r"
    and "\<And>r t. sources w' r t = sources w r t"
  shows "rel_inv w'"
proof -
  have "rel_inv w' = rel_inv w"
    unfolding rel_inv_def by (simp only: assms(2) assms(3) assms(4))
  then show ?thesis using assms(1) by (simp only:)
qed

lemma delete_records_ok:
  assumes "map_of (eid_comps (st self)) e \<noteq> None" and "map_of (eid_tags (st self)) e \<noteq> None"
    and "map_of (eid_rels (st self)) e \<noteq> None"
  shows "delete_records self e st =
           (Inr (), st(self := (st self)\<lparr>eid_comps := AList.delete e (eid_comps (st self)),
                                          eid_tags := AList.delete e (eid_tags (st self)),
                                          eid_rels := AList.delete e (eid_rels (st self))\<rparr>))"
  using assms by (simp add: delete_records_def Let_def)

lemma current_target_delete:
  "current_target (w\<lparr>eid_comps := A, eid_tags := B, eid_rels := AList.delete e (eid_rels w)\<rparr>) c r =
     (if c = e then None else current_target w c r)"
  by (simp add: current_target_def delete_conv')

lemma sources_records:
  "sources (w\<lparr>eid_comps := A, eid_tags := B, eid_rels := C\<rparr>) r t = sources w r t"
  by (simp add: sources_def)

lemma detach_incoming_ok:
  assumes inv: "rel_inv (st self)" and live: "e \<in> set (entities (st self))"
  shows "\<exists>w'. detach_incoming (Some self) self e r st = (Inr (), st(self := w')) \<and>
               rel_inv w' \<and> detaches (st self) w' \<and> sources w' r e = [] \<and>
               (\<forall>r'. r' \<noteq> r \<longrightarrow> sources w' r' e = sources (st self) r' e)"
proof -
  let ?w = "st self"
  let ?I = "\<lambda>cs s. \<exists>w'. s = st(self := w') \<and> rel_inv w' \<and> detaches ?w w' \<and>
              sources w' r e = cs \<and> (\<forall>r'. r' \<noteq> r \<longrightarrow> sources w' r' e = sources ?w r' e)"
  have init: "?I (sources ?w r e) st"
    using inv detaches_refl[of ?w] by (intro exI[of _ ?w]) simp
  have step: "\<And>x xs s. ?I (x # xs) s \<Longrightarrow>
      \<exists>s'. unrelate_child (Some self) r e x s = (Inr (), s') \<and> ?I xs s'"
  proof -
    fix x xs s assume "?I (x # xs) s"
    then obtain w' where s: "s = st(self := w')" and inv': "rel_inv w'" and det: "detaches ?w w'"
      and src: "sources w' r e = x # xs"
      and other: "\<forall>r'. r' \<noteq> r \<longrightarrow> sources w' r' e = sources ?w r' e" by blast
    have sw: "s self = w'" using s by simp
    have xin: "x \<in> set (sources w' r e)" using src by simp
    have xlive: "x \<in> set (entities w')" using rel_invD(3)[OF inv' xin] .
    have xcur: "current_target w' x r = Some e" using rel_invD(4)[OF inv' xin] .
    have elive: "e \<in> set (entities w')" using live detachesD(1)[OF det] by simp
    have child: "unrelate_child (Some self) r e x s =
        unrelate (Some self) s \<lparr>eid = x, world = self\<rparr> r e"
      using xlive sw by (simp add: unrelate_child_def Entity_init_def)
    have "\<exists>w''. unrelate (Some self) s \<lparr>eid = x, world = self\<rparr> r e = (Inr (), s(self := w'')) \<and>
               unrelated (s self) x r e w''"
      using unrelate_ok[of e s self x r] elive xcur xin sw by simp
    then obtain w'' where run: "unrelate (Some self) s \<lparr>eid = x, world = self\<rparr> r e = (Inr (), s(self := w''))"
      and un: "unrelated w' x r e w''" using sw by blast
    note u = unrelatedD[OF un]
    have dx: "distinct (x # xs)" using rel_invD(5)[OF inv', of r e] src by simp
    have "?I xs (s(self := w''))"
    proof (intro exI[of _ w''] conjI)
      show "s(self := w'') = st(self := w'')" using s by simp
      show "rel_inv w''" using rel_inv_unrelated[OF inv' xcur un] .
      show "detaches ?w w''" using detaches_trans[OF det unrelated_detaches[OF un]] .
      show "sources w'' r e = xs" using u(4) src dx by simp
      show "\<forall>r'. r' \<noteq> r \<longrightarrow> sources w'' r' e = sources ?w r' e"
        using u(5) other by simp
    qed
    then show "\<exists>s'. unrelate_child (Some self) r e x s = (Inr (), s') \<and> ?I xs s'"
      using run child by (intro exI[of _ "s(self := w'')"]) simp
  qed
  from for_each_invariant[where I = ?I and f = "unrelate_child (Some self) r e", OF init step]
  obtain s' where fe: "for_each (unrelate_child (Some self) r e) (sources ?w r e) st = (Inr (), s')"
    and fin: "?I [] s'" by blast
  from fin obtain w' where "s' = st(self := w')" "rel_inv w'" "detaches ?w w'"
    "sources w' r e = []" "\<forall>r'. r' \<noteq> r \<longrightarrow> sources w' r' e = sources ?w r' e" by blast
  then show ?thesis
    using fe unfolding detach_incoming_def by (intro exI[of _ w']) simp
qed

lemma delete_incoming_ok:
  assumes inv: "rel_inv (st self)" and live: "e \<in> set (entities (st self))"
  shows "\<exists>w'. delete_incoming (Some self) self e st = (Inr (), st(self := w')) \<and>
               rel_inv w' \<and> detaches (st self) w' \<and> (\<forall>r. sources w' r e = [])"
proof -
  let ?w = "st self"
  let ?I = "\<lambda>ks s. \<exists>w'. s = st(self := w') \<and> rel_inv w' \<and> detaches ?w w' \<and>
              (\<forall>r. r \<notin> set ks \<longrightarrow> sources w' r e = [])"
  have init: "?I (map fst (relations ?w)) st"
  proof (intro exI[of _ ?w] conjI allI impI)
    fix r assume "r \<notin> set (map fst (relations ?w))"
    then have "map_of (relations ?w) r = None" by (simp add: map_of_eq_None_iff)
    then show "sources ?w r e = []" by (simp add: sources_def)
  qed (use inv in \<open>simp_all add: detaches_refl\<close>)
  have step: "\<And>x xs s. ?I (x # xs) s \<Longrightarrow>
      \<exists>s'. detach_incoming (Some self) self e x s = (Inr (), s') \<and> ?I xs s'"
  proof -
    fix x xs s assume "?I (x # xs) s"
    then obtain w' where s: "s = st(self := w')" and inv': "rel_inv w'" and det: "detaches ?w w'"
      and rest: "\<forall>r. r \<notin> set (x # xs) \<longrightarrow> sources w' r e = []" by blast
    have sw: "s self = w'" using s by simp
    have elive: "e \<in> set (entities (s self))" using live detachesD(1)[OF det] sw by simp
    from detach_incoming_ok[of s self e x] inv' elive sw
    obtain w'' where run: "detach_incoming (Some self) self e x s = (Inr (), s(self := w''))"
      and inv'': "rel_inv w''" and det': "detaches w' w''" and empty: "sources w'' x e = []"
      and other: "\<forall>r'. r' \<noteq> x \<longrightarrow> sources w'' r' e = sources w' r' e" by auto
    have "?I xs (s(self := w''))"
    proof (intro exI[of _ w''] conjI allI impI)
      show "s(self := w'') = st(self := w'')" using s by simp
      show "rel_inv w''" using inv'' .
      show "detaches ?w w''" using detaches_trans[OF det det'] .
      fix r assume r: "r \<notin> set xs"
      show "sources w'' r e = []"
      proof (cases "r = x")
        case True
        then show ?thesis using empty by simp
      next
        case False
        then show ?thesis using other rest r by simp
      qed
    qed
    then show "\<exists>s'. detach_incoming (Some self) self e x s = (Inr (), s') \<and> ?I xs s'"
      using run by blast
  qed
  from for_each_invariant[where I = ?I and f = "detach_incoming (Some self) self e", OF init step]
  obtain s' where "for_each (detach_incoming (Some self) self e) (map fst (relations ?w)) st = (Inr (), s')"
    and "?I [] s'" by blast
  then show ?thesis
    by (auto simp: delete_incoming_def)
qed

lemma and_then_ok: "and_then (Inr (), s) f = f s"
  by (simp add: and_then_def)

lemma remove_entity_ok:
  assumes "e \<in> set (entities (st self))"
  shows "remove_entity self e st =
           (Inr (), st(self := (st self)\<lparr>entities := removeAll e (entities (st self))\<rparr>))"
  using assms by (simp add: remove_entity_def Let_def)

text \<open>
  What holds when the module-level name \<open>world\<close> is bound to the registry itself: in a
  consistent registry, for live entities \<open>e1\<close> and \<open>e2\<close> where the current target of \<open>e1\<close> for a
  relation name is \<open>e2\<close>, \<open>delete_entity(e2)\<close> succeeds, \<open>e1\<close> is no longer in the source set of
  \<open>relations[r][e2]\<close>, \<open>e1\<close> has no current target for \<open>r\<close>, and the live set loses \<open>e2\<close> and
  nothing else; the other registries are untouched.
\<close>

lemma delete_entity_cascade_bound:
  assumes con: "consistent (st self)"
    and e1: "e1 \<in> set (entities (st self))"
    and e2: "e2 \<in> set (entities (st self))"
    and edge: "current_target (st self) e1 r = Some e2"
  shows "\<exists>st'. delete_entity (Some self) st self e2 = (Inr (), st') \<and>
           e1 \<notin> set (sources (st' self) r e2) \<and>
           current_target (st' self) e1 r = None \<and>
           set (entities (st' self)) = set (entities (st self)) - {e2} \<and>
           (\<forall>x. x \<noteq> self \<longrightarrow> st' x = st x)"
proof -
  let ?w = "st self"
  let ?h = "\<lparr>eid = e2, world = self\<rparr>"
  from consistent_records[OF con e2] obtain cs ts rs where
    cs: "map_of (eid_comps ?w) e2 = Some cs" and ts: "map_of (eid_tags ?w) e2 = Some ts"
    and rs: "map_of (eid_rels ?w) e2 = Some rs" by blast
  \<comment> \<open>lines 106-107\<close>
  have "\<exists>X Y. delete_components ?h st =
           (Inr (), st(self := ?w\<lparr>components := X, eid_comps := Y\<rparr>)) \<and> map_of Y e2 \<noteq> None"
    using delete_components_ok[of st self e2 cs] cs consistent_comps[OF con cs] by blast
  then obtain X Y where run1: "delete_components ?h st =
           (Inr (), st(self := ?w\<lparr>components := X, eid_comps := Y\<rparr>))"
    and Y: "map_of Y e2 \<noteq> None" by blast
  define w1 where "w1 = ?w\<lparr>components := X, eid_comps := Y\<rparr>"
  define st1 where "st1 = st(self := w1)"
  have st1: "st1 self = w1" by (simp add: st1_def)
  \<comment> \<open>lines 108-109\<close>
  have ts1: "map_of (eid_tags (st1 self)) e2 = Some ts" using ts by (simp add: st1 w1_def)
  have held1: "\<forall>t\<in>set ts. e2 \<in> set (tag_holders (st1 self) t)"
    using consistent_tags[OF con ts] by (simp add: st1 w1_def tag_holders_def)
  have "\<exists>X' Y'. delete_tags ?h st1 =
           (Inr (), st1(self := (st1 self)\<lparr>eid_tags := Y', tags := X'\<rparr>)) \<and> map_of Y' e2 \<noteq> None"
    using delete_tags_ok[of st1 self e2 ts] ts1 held1 consistent_tags[OF con ts] by blast
  then obtain X' Y' where run2: "delete_tags ?h st1 =
           (Inr (), st1(self := (st1 self)\<lparr>eid_tags := Y', tags := X'\<rparr>))"
    and Y': "map_of Y' e2 \<noteq> None" by blast
  define w2 where "w2 = w1\<lparr>eid_tags := Y', tags := X'\<rparr>"
  define st2 where "st2 = st1(self := w2)"
  have st2: "st2 self = w2" by (simp add: st2_def)
  have w2_ent: "entities w2 = entities ?w" by (simp add: w2_def w1_def)
  have w2_cur: "\<And>c k. current_target w2 c k = current_target ?w c k"
    by (simp add: w2_def w1_def current_target_def)
  have w2_src: "\<And>k t. sources w2 k t = sources ?w k t"
    by (simp add: w2_def w1_def sources_def)
  have inv2: "rel_inv w2"
    using rel_inv_cong[OF consistent_rel_inv[OF con] w2_ent w2_cur w2_src] .
  \<comment> \<open>lines 110-111\<close>
  have rs2: "map_of (eid_rels (st2 self)) e2 = Some rs" using rs by (simp add: st2 w2_def w1_def)
  have "\<exists>w'. delete_relations (Some self) ?h st2 = (Inr (), st2(self := w')) \<and>
               rel_inv w' \<and> detaches (st2 self) w' \<and> (\<forall>k. current_target w' e2 k = None)"
    using delete_relations_ok[of st2 self e2 rs] inv2 rs2 consistent_rels[OF con rs] st2 by simp
  then obtain w3 where run3: "delete_relations (Some self) ?h st2 = (Inr (), st2(self := w3))"
    and inv3: "rel_inv w3" and det3: "detaches w2 w3"
    and none3: "\<And>k. current_target w3 e2 k = None" using st2 by auto
  define st3 where "st3 = st2(self := w3)"
  have st3: "st3 self = w3" by (simp add: st3_def)
  note d3 = detachesD[OF det3]
  \<comment> \<open>lines 112-114\<close>
  have c3: "map_of (eid_comps (st3 self)) e2 \<noteq> None" using Y d3(2) by (simp add: st3 w2_def w1_def)
  have t3: "map_of (eid_tags (st3 self)) e2 \<noteq> None" using Y' d3(3) by (simp add: st3 w2_def)
  have r3: "map_of (eid_rels (st3 self)) e2 \<noteq> None"
    using d3(4)[of e2] rs by (simp add: st3 w2_def w1_def)
  define w4 where "w4 = w3\<lparr>eid_comps := AList.delete e2 (eid_comps w3),
      eid_tags := AList.delete e2 (eid_tags w3), eid_rels := AList.delete e2 (eid_rels w3)\<rparr>"
  define st4 where "st4 = st3(self := w4)"
  have st4: "st4 self = w4" by (simp add: st4_def)
  have run4: "delete_records self e2 st3 = (Inr (), st4)"
    using delete_records_ok[of st3 self e2] c3 t3 r3 by (simp add: st4_def w4_def st3)
  have w4_ent: "entities w4 = entities w3" by (simp add: w4_def)
  have w4_cur: "\<And>c k. current_target w4 c k = current_target w3 c k"
    unfolding w4_def current_target_delete using none3 by simp
  have w4_src: "\<And>k t. sources w4 k t = sources w3 k t"
    unfolding w4_def sources_records ..
  have inv4: "rel_inv w4" using rel_inv_cong[OF inv3 w4_ent w4_cur w4_src] .
  \<comment> \<open>lines 115-118\<close>
  have live4: "e2 \<in> set (entities (st4 self))" using e2 by (simp add: st4 w4_ent d3(1) w2_ent)
  have "\<exists>w'. delete_incoming (Some self) self e2 st4 = (Inr (), st4(self := w')) \<and>
               rel_inv w' \<and> detaches (st4 self) w' \<and> (\<forall>k. sources w' k e2 = [])"
    using delete_incoming_ok[of st4 self e2] inv4 live4 st4 by simp
  then obtain w5 where run5: "delete_incoming (Some self) self e2 st4 = (Inr (), st4(self := w5))"
    and inv5: "rel_inv w5" and det5: "detaches w4 w5"
    and empty5: "\<And>k. sources w5 k e2 = []" using st4 by auto
  define st5 where "st5 = st4(self := w5)"
  have st5: "st5 self = w5" by (simp add: st5_def)
  note d5 = detachesD[OF det5]
  \<comment> \<open>line 119\<close>
  have live5: "e2 \<in> set (entities (st5 self))" using live4 d5(1) by (simp add: st5 st4)
  define w6 where "w6 = w5\<lparr>entities := removeAll e2 (entities w5)\<rparr>"
  define st6 where "st6 = st5(self := w6)"
  have run6: "remove_entity self e2 st5 = (Inr (), st6)"
    using remove_entity_ok[of e2 st5 self] live5 by (simp add: st6_def w6_def st5)
  have run: "delete_entity (Some self) st self e2 = (Inr (), st6)"
    using e2 run1 run2 run3 run4 run5 run6
    by (simp add: delete_entity_def Entity_init_def and_then_ok st1_def[symmetric] w1_def[symmetric]
        st2_def[symmetric] w2_def[symmetric] st1 st3_def[symmetric] st5_def[symmetric])
  have s6: "st6 self = w6" by (simp add: st6_def)
  have src6: "sources w6 r e2 = []" using empty5[of r] by (simp add: w6_def sources_def)
  have cur5: "current_target w5 e1 r = None"
  proof (rule ccontr)
    assume ne: "current_target w5 e1 r \<noteq> None"
    have "current_target w5 e1 r = current_target w4 e1 r" using d5(5)[of e1 r] ne by auto
    then have eq3: "current_target w5 e1 r = current_target w3 e1 r" using w4_cur[of e1 r] by simp
    then have "current_target w3 e1 r \<noteq> None" using ne by simp
    then have "current_target w3 e1 r = current_target w2 e1 r" using d3(5)[of e1 r] by auto
    then have "current_target w5 e1 r = Some e2" using eq3 w2_cur[of e1 r] edge by simp
    then have "e1 \<in> set (sources w5 r e2)" using rel_invD(2)[OF inv5] by blast
    then show False using empty5[of r] by simp
  qed
  have cur6: "current_target w6 e1 r = None" using cur5 by (simp add: w6_def current_target_def)
  have ent6: "set (entities w6) = set (entities ?w) - {e2}"
    by (simp add: w6_def d5(1) w4_ent d3(1) w2_ent)
  have other: "\<forall>x. x \<noteq> self \<longrightarrow> st6 x = st x"
    by (simp add: st6_def st5_def st4_def st3_def st2_def st1_def)
  show ?thesis
    using run src6 cur6 ent6 other s6 by (intro exI[of _ st6]) simp
qed

lemma likes_edge_0:
  "likes_edge 0 = \<lparr>entities = [0, 1, 2, 3],
     components = [((''hp'', ''int''), [(1, ()), (2, ())])],
     tags = [(Tag ''enemy'', [2, 3])], relations = [(''likes'', [(2, [1])])],
     eid_comps = [(0, []), (1, [(''hp'', ''int'')]), (2, [(''hp'', ''int'')]), (3, [])],
     eid_tags = [(0, []), (1, []), (2, [Tag ''enemy'']), (3, [Tag ''enemy''])],
     eid_rels = [(0, []), (1, [(''likes'', 2)]), (2, []), (3, [])], next_id = 4\<rparr>"
  by (simp add: likes_edge_def hp_enemy_def four_entities_def fresh_def E_def ops_defs)

lemma delete_entity_cascade_example:
  "consistent (likes_edge 0) \<and> 1 \<in> set (entities (likes_edge 0)) \<and>
   2 \<in> set (entities (likes_edge 0)) \<and> current_target (likes_edge 0) 1 ''likes'' = Some 2 \<and>
   (\<exists>st'. delete_entity (Some 0) likes_edge 0 2 = (Inr (), st') \<and>
      1 \<notin> set (sources (st' 0) ''likes'' 2) \<and>
      current_target (st' 0) 1 ''likes'' = None \<and>
      set (entities (st' 0)) = {0, 1, 3})"
proof -
  have c: "consistent (likes_edge 0)"
    by (simp add: likes_edge_0 consistent_def comp_holders_def tag_holders_def sources_def
        current_target_def)
  have l: "1 \<in> set (entities (likes_edge 0))" "2 \<in> set (entities (likes_edge 0))"
    by (simp_all add: likes_edge_0)
  have e: "current_target (likes_edge 0) 1 ''likes'' = Some 2"
    by (simp add: likes_edge_0 current_target_def)
  have s: "set (entities (likes_edge 0)) - {2} = {0, 1, 3}"
    by (auto simp: likes_edge_0)
  from delete_entity_cascade_bound[of likes_edge 0 1 2 "''likes''"] c l e
  obtain st' where "delete_entity (Some 0) likes_edge 0 2 = (Inr (), st')"
    "1 \<notin> set (sources (st' 0) ''likes'' 2)" "current_target (st' 0) 1 ''likes'' = None"
    "set (entities (st' 0)) = set (entities (likes_edge 0)) - {2}" by blast
  then have "\<exists>st'. delete_entity (Some 0) likes_edge 0 2 = (Inr (), st') \<and>
      1 \<notin> set (sources (st' 0) ''likes'' 2) \<and>
      current_target (st' 0) 1 ''likes'' = None \<and>
      set (entities (st' 0)) = {0, 1, 3}"
    using s by (intro exI[of _ st']) simp
  then show ?thesis using c l e by simp
qed

section \<open>Relations and deletion without the module-level registry\<close>

lemma four_entities_other: "n \<noteq> 0 \<Longrightarrow> four_entities n = World_init"
  by (simp add: four_entities_def fresh_def create_entity_def Let_def)

lemma consistent_four_entities: "consistent (four_entities 0)"
  by (simp add: four_entities_0 consistent_def)

lemma consistent_likes_edge: "consistent (likes_edge 0)"
  by (simp add: likes_edge_0 consistent_def comp_holders_def tag_holders_def sources_def
      current_target_def)

lemma delete_entity_unbound:
  "delete_entity None likes_edge 0 2 =
     (Inl NameError, likes_edge(0 := \<lparr>entities = [0, 1, 2, 3],
        components = [((''hp'', ''int''), [(1, ())])],
        tags = [(Tag ''enemy'', [3])], relations = [(''likes'', [(2, [1])])],
        eid_comps = [(0, []), (1, [(''hp'', ''int'')]), (3, [])],
        eid_tags = [(0, []), (1, []), (3, [Tag ''enemy''])],
        eid_rels = [(0, []), (1, [(''likes'', 2)]), (3, [])], next_id = 4\<rparr>))"
  by (simp add: likes_edge_0 delete_entity_def and_then_def delete_components_def delete_tags_def
      delete_relations_def delete_records_def delete_incoming_def remove_entity_def
      detach_incoming_def unrelate_own_def unrelate_child_def Entity_init_def
      getattr_components_def getattr_tags_def getattr_relations_def delitem_def untag_def
      dd_get_def sources_def Let_def)

lemma delete_entity_other_registry:
  "delete_entity (Some 1) likes_beside 0 2 =
     (Inl KeyError, likes_beside(0 := \<lparr>entities = [0, 1, 2, 3],
        components = [((''hp'', ''int''), [(1, ())])],
        tags = [(Tag ''enemy'', [3])], relations = [(''likes'', [(2, [1])])],
        eid_comps = [(0, []), (1, [(''hp'', ''int'')]), (3, [])],
        eid_tags = [(0, []), (1, []), (3, [Tag ''enemy''])],
        eid_rels = [(0, []), (1, [(''likes'', 2)]), (3, [])], next_id = 4\<rparr>,
       1 := (four_entities 0)\<lparr>relations := [(''likes'', [])]\<rparr>))"
  by (simp add: likes_beside_def likes_edge_0 four_entities_0 delete_entity_def and_then_def
      delete_components_def delete_tags_def
      delete_relations_def delete_records_def delete_incoming_def remove_entity_def
      detach_incoming_def unrelate_own_def unrelate_child_def Entity_init_def
      getattr_components_def getattr_tags_def getattr_relations_def delitem_def untag_def
      unrelate_def dd_get_def sources_def Let_def)

text \<open>
  Claim C4. The claim asks that \<open>delete_entity(e2)\<close> succeed and detach \<open>e1\<close> for every pair of
  live entities with \<open>e1\<close> related to \<open>e2\<close> under \<open>"likes"\<close>. Lines 117-118 build the handle of
  each source from the module-level name \<open>world\<close>, not from \<open>self\<close>. In the consistent
  registry 0 with the edge 1 --likes--> 2: when \<open>world\<close> is unbound the call raises
  \<open>NameError\<close>, and when \<open>world\<close> is bound to another registry that holds the same ids it
  raises \<open>KeyError\<close>; both times entity 1 stays in the source set of
  \<open>relations["likes"][2]\<close>, keeps 2 as its current target, and entity 2 stays live, its
  records already deleted.
\<close>

theorem delete_entity_needs_module_world:
  "consistent (likes_edge 0) \<and>
   1 \<in> set (entities (likes_edge 0)) \<and> 2 \<in> set (entities (likes_edge 0)) \<and>
   current_target (likes_edge 0) 1 ''likes'' = Some 2 \<and>
   fst (delete_entity None likes_edge 0 2) = Inl NameError \<and>
   sources (snd (delete_entity None likes_edge 0 2) 0) ''likes'' 2 = [1] \<and>
   current_target (snd (delete_entity None likes_edge 0 2) 0) 1 ''likes'' = Some 2 \<and>
   2 \<in> set (entities (snd (delete_entity None likes_edge 0 2) 0)) \<and>
   map_of (eid_rels (snd (delete_entity None likes_edge 0 2) 0)) 2 = None \<and>
   likes_beside 0 = likes_edge 0 \<and>
   fst (delete_entity (Some 1) likes_beside 0 2) = Inl KeyError \<and>
   sources (snd (delete_entity (Some 1) likes_beside 0 2) 0) ''likes'' 2 = [1] \<and>
   current_target (snd (delete_entity (Some 1) likes_beside 0 2) 0) 1 ''likes'' = Some 2 \<and>
   2 \<in> set (entities (snd (delete_entity (Some 1) likes_beside 0 2) 0))"
  unfolding delete_entity_unbound delete_entity_other_registry
  using consistent_likes_edge
  by (simp add: likes_edge_0 likes_beside_def sources_def current_target_def)

text \<open>
  Claim C5. The claim asks that, for every live entity and live targets \<open>a \<noteq> b\<close>,
  \<open>relate(e, "parent", a)\<close> and then \<open>relate(e, "parent", b)\<close> leave \<open>b\<close> as the current target.
  Line 59 tests the target against the module-level name \<open>world\<close>, not against
  \<open>self.world\<close>. In the consistent registry 0 with live entities 0, 1 and 2: when \<open>world\<close> is
  unbound, and when it is bound to the empty registry 1, both calls raise \<open>NameError\<close> and
  change nothing, so entity 0 has no target for \<open>"parent"\<close> afterwards.
\<close>

theorem relate_needs_module_world:
  "consistent (four_entities 0) \<and>
   0 \<in> set (entities (four_entities 0)) \<and> 1 \<in> set (entities (four_entities 0)) \<and>
   2 \<in> set (entities (four_entities 0)) \<and>
   relate None four_entities (E 0) ''parent'' 1 = (Inl NameError, four_entities) \<and>
   relate None four_entities (E 0) ''parent'' 2 = (Inl NameError, four_entities) \<and>
   relate (Some 1) four_entities (E 0) ''parent'' 1 = (Inl NameError, four_entities) \<and>
   relate (Some 1) four_entities (E 0) ''parent'' 2 = (Inl NameError, four_entities) \<and>
   current_target (four_entities 0) 0 ''parent'' = None"
  using consistent_four_entities
  by (simp add: relate_def four_entities_other World_init_def four_entities_0 current_target_def)

end
